theory Spec2Isabelle
  imports Main "HOL-Library.AList"
begin

section \<open>Python values used by numcode.py\<close>

text \<open>
  Exceptions are values: a function that may raise returns \<open>error + 'a\<close>, with \<open>Inl\<close>
  the exception. \<open>bindE\<close> sequences two steps and stops at the first exception.
\<close>

datatype error = IndexError | KeyError | ValueError | FileNotFoundError

definition bindE :: "error + 'a \<Rightarrow> ('a \<Rightarrow> error + 'b) \<Rightarrow> error + 'b" where
  "bindE m f = (case m of Inl e \<Rightarrow> Inl e | Inr x \<Rightarrow> f x)"

text \<open>A dict literal is an association list in insertion order; \<open>d[k]\<close> raises KeyError.\<close>

definition dict_get :: "('k \<times> 'v) list \<Rightarrow> 'k \<Rightarrow> error + 'v" where
  "dict_get d k = (case map_of d k of None \<Rightarrow> Inl KeyError | Some v \<Rightarrow> Inr v)"

text \<open>
  \<open>{v: k for k, v in d.items()}\<close>: every pair is stored under its value; a key stored twice
  keeps its first position and takes the later value, which is what \<open>AList.update\<close> does.
\<close>

definition dict_inv :: "('k \<times> 'v) list \<Rightarrow> ('v \<times> 'k) list" where
  "dict_inv d = foldl (\<lambda>acc kv. AList.update (snd kv) (fst kv) acc) [] d"

text \<open>Truthiness of an optional string (\<open>lang or data_type\<close>): None and the empty string are false.\<close>

definition truthy :: "string option \<Rightarrow> bool" where
  "truthy s = (case s of None \<Rightarrow> False | Some t \<Rightarrow> t \<noteq> [])"

section \<open>Characters and strings\<close>

text \<open>
  The theory covers ASCII text: a character is a \<open>char\<close>, and the character classes below
  are Python's on the ASCII range. Characters outside ASCII are in none of the classes.
\<close>

definition isdigit :: "char \<Rightarrow> bool" where
  "isdigit ch = (ch \<in> set ''0123456789'')"

definition digit_val :: "char \<Rightarrow> int" where
  "digit_val ch = int (of_char ch) - 48"

definition digit_char :: "int \<Rightarrow> char" where
  "digit_char n = ''0123456789'' ! nat n"

text \<open>\<open>int(s)\<close> as the program uses it: on the digit characters collected from a token.\<close>

definition py_int :: "string \<Rightarrow> error + int" where
  "py_int s = (if s \<noteq> [] \<and> list_all isdigit s
               then Inr (foldl (\<lambda>a ch. 10 * a + digit_val ch) 0 s)
               else Inl ValueError)"

text \<open>\<open>str(n)\<close> of an integer: decimal digits, a minus sign when negative.\<close>

function digits_of :: "int \<Rightarrow> string" where
  "digits_of n = (if n < 10 then [digit_char n] else digits_of (n div 10) @ [digit_char (n mod 10)])"
  by pat_completeness auto
termination
  by (relation "measure nat") auto

declare digits_of.simps [simp del]

definition py_str :: "int \<Rightarrow> string" where
  "py_str i = (if i < 0 then CHR ''-'' # digits_of (- i) else digits_of i)"

text \<open>\<open>sep.join(xs)\<close>.\<close>

fun join :: "string \<Rightarrow> string list \<Rightarrow> string" where
  "join sep [] = []"
| "join sep [x] = x"
| "join sep (x # y # ys) = x @ sep @ join sep (y # ys)"

definition lower_char :: "char \<Rightarrow> char" where
  "lower_char ch =
     (case map_of (zip ''ABCDEFGHIJKLMNOPQRSTUVWXYZ'' ''abcdefghijklmnopqrstuvwxyz'') ch of
        None \<Rightarrow> ch
      | Some c \<Rightarrow> c)"

definition upper_char :: "char \<Rightarrow> char" where
  "upper_char ch =
     (case map_of (zip ''abcdefghijklmnopqrstuvwxyz'' ''ABCDEFGHIJKLMNOPQRSTUVWXYZ'') ch of
        None \<Rightarrow> ch
      | Some c \<Rightarrow> c)"

section \<open>Bitmap canvas\<close>

text \<open>
  A Pillow image of mode 1: its size and its pixels. \<open>Image.new\<close> fills with one colour,
  pixel access outside the image raises IndexError (a negative index counts from the far
  edge), \<open>paste\<close> copies a whole image at an offset.
\<close>

record image =
  width :: int
  height :: int
  pix :: "int \<times> int \<Rightarrow> nat"

definition Image_new :: "int \<times> int \<Rightarrow> nat \<Rightarrow> image" where
  "Image_new sz color = \<lparr>width = fst sz, height = snd sz, pix = (\<lambda>_. color)\<rparr>"

definition locate :: "image \<Rightarrow> int \<times> int \<Rightarrow> error + (int \<times> int)" where
  "locate img xy =
     (let x = (if fst xy < 0 then width img + fst xy else fst xy);
          y = (if snd xy < 0 then height img + snd xy else snd xy)
      in if x < 0 \<or> y < 0 \<or> width img \<le> x \<or> height img \<le> y then Inl IndexError else Inr (x, y))"

definition getpixel :: "image \<Rightarrow> int \<times> int \<Rightarrow> error + nat" where
  "getpixel img xy = bindE (locate img xy) (\<lambda>p. Inr (pix img p))"

definition putpixel :: "image \<Rightarrow> int \<times> int \<Rightarrow> nat \<Rightarrow> error + image" where
  "putpixel img xy v = bindE (locate img xy) (\<lambda>p. Inr (img\<lparr>pix := (pix img)(p := v)\<rparr>))"

definition paste :: "image \<Rightarrow> image \<Rightarrow> int \<times> int \<Rightarrow> image" where
  "paste img src off =
     img\<lparr>pix := (\<lambda>p. if fst off \<le> fst p \<and> fst p < fst off + width src \<and>
                         snd off \<le> snd p \<and> snd p < snd off + height src
                      then pix src (fst p - fst off, snd p - snd off)
                      else pix img p)\<rparr>"

section \<open>Grid coordinates\<close>

definition LANG_CELLS :: "(string \<times> (int \<times> int)) list" where
  "LANG_CELLS = [(''ar'', (1, 5)), (''zh'', (1, 6)), (''fr'', (1, 7)),
                 (''pt'', (1, 8)), (''es'', (1, 9)), (''eng'', (1, 10))]"

definition LANG_CELLS_INV :: "((int \<times> int) \<times> string) list" where
  "LANG_CELLS_INV = dict_inv LANG_CELLS"

definition DATA_TYPES :: "(string \<times> (int \<times> int)) list" where
  "DATA_TYPES = [(''bin'', (18, 6)), (''enc'', (18, 7)), (''so'', (18, 8)), (''im'', (18, 9))]"

definition DATA_TYPES_INV :: "((int \<times> int) \<times> string) list" where
  "DATA_TYPES_INV = dict_inv DATA_TYPES"

definition SUFFIXES :: "(char \<times> (int \<times> int)) list" where
  "SUFFIXES = [(CHR ''s'', (13, 7)), (CHR ''r'', (13, 8)), (CHR ''n'', (13, 9))]"

definition SUFFIXES_INV :: "((int \<times> int) \<times> char) list" where
  "SUFFIXES_INV = dict_inv SUFFIXES"

definition pos_units :: "(int \<times> (int \<times> int)) list" where
  "pos_units = [(9, (14, 7)), (8, (14, 8)), (7, (14, 9)), (6, (15, 7)), (5, (15, 8)),
                (4, (15, 9)), (3, (16, 7)), (2, (16, 8)), (1, (16, 9))]"

definition pos_tens_low :: "(int \<times> (int \<times> int)) list" where
  "pos_tens_low = [(1, (17, 6)), (2, (16, 6)), (3, (15, 6)), (4, (14, 6)), (5, (13, 6))]"

definition pos_tens_high :: "(int \<times> (int \<times> int)) list" where
  "pos_tens_high = [(6, (12, 6)), (7, (12, 7)), (8, (12, 8)), (9, (12, 9))]"

definition places :: "(int \<times> int) list" where
  "places = [(100, 7), (1000, 8), (10000, 9), (100000, 6), (1000000, 5),
             (10000000, 4), (100000000, 3), (1000000000, 2)]"

section \<open>Ideogram grid: id_to_cells\<close>

definition place_step :: "int \<Rightarrow> (int \<times> int) list \<Rightarrow> int \<times> int \<Rightarrow> (int \<times> int) list" where
  "place_step number cells pc =
     (let digit = (number div fst pc) mod 10
      in if digit > 0 then cells @ [(11 - (digit - 1), snd pc)] else cells)"

definition id_to_cells :: "int \<Rightarrow> error + (int \<times> int) list" where
  "id_to_cells number =
     (let cells = [];
          u = number mod 10
      in bindE (if u > 0 then bindE (dict_get pos_units u) (\<lambda>p. Inr (cells @ [p]))
                else Inr cells) (\<lambda>cells.
         let d = (number div 10) mod 10
         in bindE (if d > 0
                   then (if d \<le> 5
                         then bindE (dict_get pos_tens_low d) (\<lambda>p. Inr (cells @ [p]))
                         else bindE (dict_get pos_tens_high d) (\<lambda>p. Inr (cells @ [p])))
                   else Inr cells) (\<lambda>cells.
            Inr (foldl (place_step number) cells places))))"

section \<open>Rendering a strip: create_strip\<close>

text \<open>The loop that inks the cells of one block, with the source's range guard.\<close>

fun paint_cells :: "image \<Rightarrow> (int \<times> int) list \<Rightarrow> error + image" where
  "paint_cells px [] = Inr px"
| "paint_cells px (rc # cells) =
     (if 0 \<le> fst rc - 1 \<and> fst rc - 1 < 20 \<and> 0 \<le> snd rc - 1 \<and> snd rc - 1 < 10
      then bindE (putpixel px (snd rc - 1, fst rc - 1) 0) (\<lambda>px'. paint_cells px' cells)
      else paint_cells px cells)"

definition header_block :: "string option \<Rightarrow> string option \<Rightarrow> error + image" where
  "header_block lang data_type =
     (let header = Image_new (10, 20) 1
      in bindE (case lang of
                  None \<Rightarrow> Inr header
                | Some l \<Rightarrow>
                    (if l \<noteq> [] then
                       (case map_of LANG_CELLS l of
                          None \<Rightarrow> Inr header
                        | Some rc \<Rightarrow> putpixel header (snd rc - 1, fst rc - 1) 0)
                     else Inr header)) (\<lambda>header.
         (case data_type of
            None \<Rightarrow> Inr header
          | Some t \<Rightarrow>
              (if t \<noteq> [] then
                 (case map_of DATA_TYPES t of
                    None \<Rightarrow> Inr header
                  | Some rc \<Rightarrow> putpixel header (snd rc - 1, fst rc - 1) 0)
               else Inr header))))"

definition token_suffix :: "string \<Rightarrow> char option" where
  "token_suffix token =
     foldl (\<lambda>suffix ch. if ch \<in> set ''snrSNR'' then Some (lower_char ch) else suffix) None token"

text \<open>One data block; None when the token has no digit (the loop's \<open>continue\<close>).\<close>

definition token_block :: "string \<Rightarrow> error + image option" where
  "token_block token =
     (let block = Image_new (10, 20) 1;
          num_str = filter isdigit token;
          suffix = token_suffix token
      in if num_str = [] then Inr None
         else bindE (py_int num_str) (\<lambda>n.
              bindE (id_to_cells n) (\<lambda>cells.
              let cells = (case suffix of
                             None \<Rightarrow> cells
                           | Some s \<Rightarrow> (case map_of SUFFIXES s of
                                          None \<Rightarrow> cells
                                        | Some rc \<Rightarrow> cells @ [rc]))
              in bindE (paint_cells block cells) (\<lambda>block. Inr (Some block)))))"

fun strip_blocks :: "image \<Rightarrow> int \<Rightarrow> int \<Rightarrow> string list \<Rightarrow> error + image" where
  "strip_blocks img offset i [] = Inr img"
| "strip_blocks img offset i (token # rest) =
     bindE (token_block token) (\<lambda>b.
       case b of
         None \<Rightarrow> strip_blocks img offset (i + 1) rest
       | Some block \<Rightarrow> strip_blocks (paste img block ((i + offset) * 10, 0)) offset (i + 1) rest)"

text \<open>
  The file system is a map from file names to images: saving a mode-1 image as PNG and
  opening it again gives the same pixels. The first argument says whether Pillow was
  imported (\<open>Image is not None\<close>). The result is the returned block count and the files.
\<close>

type_synonym files = "string \<rightharpoonup> image"

definition create_strip ::
  "bool \<Rightarrow> files \<Rightarrow> string list \<Rightarrow> string option \<Rightarrow> string option \<Rightarrow> string \<Rightarrow> error + (int \<times> files)" where
  "create_strip pil fs token_list lang data_type filename =
     (if \<not> pil then Inr (0, fs)
      else
        let has_header = (truthy lang \<or> truthy data_type);
            total = int (length token_list) + (if has_header then 1 else 0);
            img = Image_new (10 * total, 20) 1
        in bindE (if has_header
                  then bindE (header_block lang data_type) (\<lambda>header. Inr (paste img header (0, 0)))
                  else Inr img) (\<lambda>img.
           let offset = (if has_header then 1 else 0)
           in bindE (strip_blocks img offset 0 token_list) (\<lambda>img.
              Inr (total, fs(filename \<mapsto> img)))))"

section \<open>Parsing a strip: read_cell, read_header, read_block, read_strip\<close>

definition read_cell :: "image \<Rightarrow> int \<Rightarrow> int \<Rightarrow> int \<Rightarrow> error + bool" where
  "read_cell pixels block_x row col =
     bindE (getpixel pixels (block_x * 10 + (col - 1), row - 1)) (\<lambda>v. Inr (v = 0))"

text \<open>
  The probing loops \<open>for ... in d.items(): if read_cell(...): ...; break\<close>: the payload of the
  first active cell in table order, None when no cell of the table is active.
\<close>

fun first_cell :: "image \<Rightarrow> int \<Rightarrow> ((int \<times> int) \<times> 'a) list \<Rightarrow> error + 'a option" where
  "first_cell pixels block_x [] = Inr None"
| "first_cell pixels block_x (e # rest) =
     bindE (read_cell pixels block_x (fst (fst e)) (snd (fst e))) (\<lambda>active.
       if active then Inr (Some (snd e)) else first_cell pixels block_x rest)"

fun first_key :: "image \<Rightarrow> int \<Rightarrow> ('a \<times> (int \<times> int)) list \<Rightarrow> error + 'a option" where
  "first_key pixels block_x [] = Inr None"
| "first_key pixels block_x (e # rest) =
     bindE (read_cell pixels block_x (fst (snd e)) (snd (snd e))) (\<lambda>active.
       if active then Inr (Some (fst e)) else first_key pixels block_x rest)"

definition read_header :: "image \<Rightarrow> int \<Rightarrow> error + (string option \<times> string option)" where
  "read_header pixels block_x =
     bindE (first_cell pixels block_x LANG_CELLS_INV) (\<lambda>lang.
     bindE (first_cell pixels block_x DATA_TYPES_INV) (\<lambda>dtype.
     Inr (lang, dtype)))"

fun probe_column :: "image \<Rightarrow> int \<Rightarrow> int \<Rightarrow> int \<Rightarrow> int list \<Rightarrow> error + int option" where
  "probe_column pixels block_x place col [] = Inr None"
| "probe_column pixels block_x place col (v # vs) =
     (let row = 11 - (v - 1)
      in if place = 100000 \<and> row \<ge> 12 then probe_column pixels block_x place col vs
         else bindE (read_cell pixels block_x row col) (\<lambda>active.
                if active then Inr (Some v) else probe_column pixels block_x place col vs))"

fun read_places :: "image \<Rightarrow> int \<Rightarrow> int \<Rightarrow> (int \<times> int) list \<Rightarrow> error + int" where
  "read_places pixels block_x number [] = Inr number"
| "read_places pixels block_x number (pc # rest) =
     bindE (probe_column pixels block_x (fst pc) (snd pc) [1..9]) (\<lambda>r.
       read_places pixels block_x
         (case r of None \<Rightarrow> number | Some v \<Rightarrow> number + v * fst pc) rest)"

definition read_block :: "image \<Rightarrow> int \<Rightarrow> error + (int \<times> char)" where
  "read_block pixels block_x =
     (let number = 0;
          suffix = CHR ''b''
      in bindE (first_key pixels block_x pos_units) (\<lambda>u.
         let number = (case u of None \<Rightarrow> number | Some v \<Rightarrow> number + v)
         in bindE (first_key pixels block_x pos_tens_high) (\<lambda>h.
            let number = (case h of None \<Rightarrow> number | Some v \<Rightarrow> number + v * 10);
                found = (h \<noteq> None)
            in bindE (if \<not> found
                      then bindE (first_key pixels block_x pos_tens_low) (\<lambda>l.
                             Inr (case l of None \<Rightarrow> number | Some v \<Rightarrow> number + v * 10))
                      else Inr number) (\<lambda>number.
               bindE (read_places pixels block_x number places) (\<lambda>number.
               bindE (first_cell pixels block_x SUFFIXES_INV) (\<lambda>s.
               Inr (number, (case s of None \<Rightarrow> suffix | Some c \<Rightarrow> c))))))))"

fun read_blocks :: "image \<Rightarrow> int list \<Rightarrow> error + string list" where
  "read_blocks pixels [] = Inr []"
| "read_blocks pixels (i # rest) =
     bindE (read_block pixels i) (\<lambda>ns.
     bindE (read_blocks pixels rest) (\<lambda>result.
     Inr ((py_str (fst ns) @ [snd ns]) # result)))"

definition read_strip ::
  "bool \<Rightarrow> files \<Rightarrow> string \<Rightarrow> error + (string option \<times> string option \<times> string)" where
  "read_strip pil fs filename =
     (if \<not> pil then Inr (None, None, [])
      else
        (case fs filename of
           None \<Rightarrow> Inl FileNotFoundError
         | Some img \<Rightarrow>
             (let pixels = img;
                  num_blocks = width img div 10
              in if num_blocks = 0 then Inr (None, None, [])
                 else bindE (read_header pixels 0) (\<lambda>ld.
                      let lang = fst ld; dtype = snd ld;
                          start = (if truthy lang \<or> truthy dtype then 1 else 0)
                      in bindE (read_blocks pixels [start..num_blocks - 1]) (\<lambda>result.
                         Inr (lang, dtype, join '' '' result))))))"

text \<open>One block on its own: a fresh 10 by 20 canvas inked with a list of cells.\<close>

definition render_block :: "(int \<times> int) list \<Rightarrow> error + image" where
  "render_block cells = paint_cells (Image_new (10, 20) 1) cells"

section \<open>Tokenizer\<close>

text \<open>
  Whitespace as \<open>str.split()\<close> and the regular expression class \<open>\s\<close> see it on ASCII:
  tab, line feed, vertical tab, form feed, carriage return, the four separators 28 to 31, space.
\<close>

definition isspace :: "char \<Rightarrow> bool" where
  "isspace ch = (ch \<in> set [CHR 0x09, CHR 0x0A, CHR 0x0B, CHR 0x0C, CHR 0x0D,
                            CHR 0x1C, CHR 0x1D, CHR 0x1E, CHR 0x1F, CHR '' ''])"

definition is_letter :: "char \<Rightarrow> bool" where
  "is_letter ch = (ch \<in> set ''abcdefghijklmnopqrstuvwxyzABCDEFGHIJKLMNOPQRSTUVWXYZ'')"

text \<open>The class \<open>[a-zA-Z']\<close> (with the accented ranges of the source left out, being outside ASCII).\<close>

definition is_word_char :: "char \<Rightarrow> bool" where
  "is_word_char ch = (is_letter ch \<or> ch = CHR 0x27)"

text \<open>The class \<open>[.,;:!?()"'-]\<close>.\<close>

definition is_punct :: "char \<Rightarrow> bool" where
  "is_punct ch = (ch \<in> set [CHR ''.'', CHR '','', CHR '';'', CHR '':'', CHR ''!'', CHR ''?'',
                           CHR ''('', CHR '')'', CHR 0x22, CHR 0x27, CHR ''-''])"

text \<open>
  \<open>re.findall\<close> for a pattern \<open>A+|B+|C\<close> of character classes: at each position the first
  alternative that matches wins, a run is taken as long as it goes, and a character that
  starts no alternative is skipped.
\<close>

function findall_runs ::
  "(char \<Rightarrow> bool) \<Rightarrow> (char \<Rightarrow> bool) \<Rightarrow> (char \<Rightarrow> bool) \<Rightarrow> string \<Rightarrow> string list" where
  "findall_runs A B C [] = []"
| "findall_runs A B C (ch # rest) =
     (if A ch then (ch # takeWhile A rest) # findall_runs A B C (dropWhile A rest)
      else if B ch then (ch # takeWhile B rest) # findall_runs A B C (dropWhile B rest)
      else if C ch then [ch] # findall_runs A B C rest
      else findall_runs A B C rest)"
  by pat_completeness auto
termination
  by (relation "measure (\<lambda>(A, B, C, s). length s)")
     (auto simp: less_Suc_eq_le length_dropWhile_le)

definition tokenize :: "string \<Rightarrow> string \<Rightarrow> string list" where
  "tokenize text lang =
     (if lang = ''zh'' then map (\<lambda>ch. [ch]) (filter (\<lambda>ch. ch \<noteq> CHR '' '') text)
      else if lang = ''ar'' then findall_runs isdigit is_word_char is_punct text
      else findall_runs is_word_char isdigit is_punct (map lower_char text))"

section \<open>Encoder\<close>

type_synonym lexicon = "string \<rightharpoonup> int"
type_synonym reverse_lexicon = "int \<rightharpoonup> string"

text \<open>\<open>re.match(r'^[0-9]+$', t)\<close>: digits only, where \<open>$\<close> also matches before one final line feed.\<close>

definition is_number_token :: "string \<Rightarrow> bool" where
  "is_number_token t =
     (let body = (if t \<noteq> [] \<and> last t = CHR 0x0A then butlast t else t)
      in body \<noteq> [] \<and> list_all isdigit body)"

text \<open>Phase 1, the body of the loop over the tokens; the state is \<open>(raw, not_found)\<close>.\<close>

definition encode_step ::
  "lexicon \<Rightarrow> string \<Rightarrow> string list \<times> string list \<Rightarrow> string \<Rightarrow> string list \<times> string list" where
  "encode_step enc lang st t =
     (if is_number_token t then (fst st @ [t @ ''n''], snd st)
      else
        let t_lower = (if lang \<noteq> ''zh'' then map lower_char t else t)
        in (case enc t_lower of
              Some i \<Rightarrow> (fst st @ [py_str i @ ''b''], snd st)
            | None \<Rightarrow>
                (case enc t of
                   Some i \<Rightarrow> (fst st @ [py_str i @ ''b''], snd st)
                 | None \<Rightarrow> (fst st, snd st @ [t]))))"

text \<open>Phase 2, the inner loop: the length of the run of items equal to \<open>raw[i]\<close> that starts at \<open>i\<close>.\<close>

function run_length :: "string list \<Rightarrow> nat \<Rightarrow> nat \<Rightarrow> nat" where
  "run_length raw i count =
     (if i + count < length raw \<and> raw ! (i + count) = raw ! i
      then run_length raw i (count + 1) else count)"
  by pat_completeness auto
termination
  by (relation "measure (\<lambda>(raw, i, count). length raw - (i + count))") auto

declare run_length.simps [simp del]

lemma run_length_ge: "count \<le> run_length raw i count"
proof (induction raw i count rule: run_length.induct)
  case (1 raw i count)
  then show ?case by (subst run_length.simps) (auto split: if_splits)
qed

text \<open>Phase 2, the outer loop.\<close>

function compress :: "string list \<Rightarrow> nat \<Rightarrow> string list \<Rightarrow> string list" where
  "compress raw i result =
     (if i < length raw then
        (let count = run_length raw i 1;
             result1 = result @ [raw ! i];
             result2 = (if count > 1 then result1 @ [py_str (int count) @ ''r''] else result1)
         in compress raw (i + count) result2)
      else result)"
  by pat_completeness auto
termination
proof (relation "measure (\<lambda>(raw, i, result). length raw - i)")
  show "wf (measure (\<lambda>(raw, i, result). length raw - i))" by simp
next
  fix raw :: "string list" and i :: nat and result x xa xb :: "string list" and count :: nat
  assume "i < length raw" and "count = run_length raw i 1"
  then show "((raw, i + count, xb), raw, i, result) \<in> measure (\<lambda>(raw, i, result). length raw - i)"
    using run_length_ge[of 1 raw i] by simp
qed

declare compress.simps [simp del]

text \<open>
  The two lexicon tables of the program are its global dicts \<open>dicts_encode\<close> and
  \<open>dicts_decode\<close>, from language to lexicon; they are arguments here. \<open>encode_phase1\<close> is the
  state after the first loop, \<open>encode_log\<close> the line the encoder prints, \<open>encode\<close> its result.
\<close>

definition encode_phase1 :: "lexicon \<Rightarrow> string \<Rightarrow> string list \<Rightarrow> string list \<times> string list" where
  "encode_phase1 enc lang tokens = foldl (encode_step enc lang) ([], []) tokens"

definition encode :: "(string \<rightharpoonup> lexicon) \<Rightarrow> string \<Rightarrow> string \<Rightarrow> string list" where
  "encode dicts_encode text lang =
     (case dicts_encode lang of
        None \<Rightarrow> []
      | Some enc \<Rightarrow>
          (let tokens = tokenize text lang;
               raw = fst (encode_phase1 enc lang tokens)
           in compress raw 0 []))"

definition encode_log :: "(string \<rightharpoonup> lexicon) \<Rightarrow> string \<Rightarrow> string \<Rightarrow> string option" where
  "encode_log dicts_encode text lang =
     (case dicts_encode lang of
        None \<Rightarrow> None
      | Some enc \<Rightarrow>
          (let not_found = snd (encode_phase1 enc lang (tokenize text lang))
           in if not_found \<noteq> []
              then Some (''  Not found ('' @ py_str (int (length not_found)) @ ''): '' @
                         join '', '' (take 10 not_found))
              else None))"

section \<open>Decoder\<close>

text \<open>\<open>s.split()\<close>: the maximal runs of characters that are not whitespace.\<close>

fun split_from :: "string \<Rightarrow> string \<Rightarrow> string list" where
  "split_from cur [] = (if cur = [] then [] else [cur])"
| "split_from cur (ch # rest) =
     (if isspace ch then (if cur = [] then split_from [] rest else cur # split_from [] rest)
      else split_from (cur @ [ch]) rest)"

definition split :: "string \<Rightarrow> string list" where
  "split s = split_from [] s"

text \<open>The scan of one wire item: the state is \<open>(suffix, num_str)\<close>.\<close>

definition parse_item :: "string \<Rightarrow> char option \<times> string" where
  "parse_item token =
     foldl (\<lambda>st ch. if isdigit ch then (fst st, snd st @ [ch])
                     else if ch \<in> set ''bnsr'' then (Some ch, snd st)
                     else st) (None, []) token"

definition decode_step :: "reverse_lexicon \<Rightarrow> string list \<Rightarrow> string \<Rightarrow> error + string list" where
  "decode_step dec words token =
     (let suffix = fst (parse_item token); num_str = snd (parse_item token)
      in if num_str = [] then Inr words
         else bindE (py_int num_str) (\<lambda>tid.
           if suffix = Some CHR ''n'' then Inr (words @ [py_str tid])
           else if suffix = Some CHR ''r'' then
             (if words \<noteq> [] then Inr (words @ replicate (nat (tid - 1)) (last words))
              else Inr words)
           else if suffix = Some CHR ''s'' then Inr words
           else (case dec tid of
                   Some w \<Rightarrow> Inr (words @ [w])
                 | None \<Rightarrow> Inr (words @ [''[?'' @ py_str tid @ '']'']))))"

fun decode_tokens :: "reverse_lexicon \<Rightarrow> string list \<Rightarrow> string list \<Rightarrow> error + string list" where
  "decode_tokens dec words [] = Inr words"
| "decode_tokens dec words (token # rest) =
     bindE (decode_step dec words token) (\<lambda>words'. decode_tokens dec words' rest)"

definition PUNCT_ATTACH_RIGHT :: "string set" where
  "PUNCT_ATTACH_RIGHT = {''.'', '','', '';'', '':'', ''!'', ''?'', '')'', [CHR 0x22], [CHR 0x27], ''-''}"

definition part_step :: "string list \<Rightarrow> nat \<times> string \<Rightarrow> string list" where
  "part_step parts iw =
     (if fst iw = 0 then parts @ [snd iw]
      else if snd iw \<in> PUNCT_ATTACH_RIGHT then parts @ [snd iw]
      else if parts \<noteq> [] \<and> last parts \<noteq> [] \<and> last (last parts) = CHR ''(''
           then parts @ [snd iw]
      else parts @ [CHR '' '' # snd iw])"

definition is_lower :: "char \<Rightarrow> bool" where
  "is_lower ch = (ch \<in> set ''abcdefghijklmnopqrstuvwxyz'')"

text \<open>
  \<open>re.sub\<close> of \<open>([.!?])\s+([a-z...])\<close> by the mark, one space and the letter in upper case
  (the accented letters of the class are outside ASCII).
\<close>

function cap_sentences :: "string \<Rightarrow> string" where
  "cap_sentences [] = []"
| "cap_sentences (ch # rest) =
     (if ch \<in> set ''.!?'' \<and> takeWhile isspace rest \<noteq> [] then
        (case dropWhile isspace rest of
           [] \<Rightarrow> ch # cap_sentences rest
         | a # after \<Rightarrow>
             (if is_lower a then ch # CHR '' '' # upper_char a # cap_sentences after
              else ch # cap_sentences rest))
      else ch # cap_sentences rest)"
  by pat_completeness auto
termination
proof (relation "measure length")
  show "wf (measure length)" by simp
next
  fix ch :: char and rest :: string and a :: char and after :: string
  assume "dropWhile isspace rest = a # after"
  then have "length (a # after) \<le> length rest"
    using length_dropWhile_le[of isspace rest] by simp
  then show "(after, ch # rest) \<in> measure length" by simp
qed simp_all

definition reconstruct :: "string list \<Rightarrow> string" where
  "reconstruct words =
     (let parts = foldl part_step [] (enumerate 0 words);
          text = concat parts
      in (case text of
            [] \<Rightarrow> text
          | ch # rest \<Rightarrow> cap_sentences (upper_char ch # rest)))"

definition decode :: "(string \<rightharpoonup> reverse_lexicon) \<Rightarrow> string \<Rightarrow> string \<Rightarrow> error + string" where
  "decode dicts_decode numcode_str lang =
     (case dicts_decode lang of
        None \<Rightarrow> Inr []
      | Some dec \<Rightarrow>
          (let tokens = split numcode_str
           in bindE (decode_tokens dec [] tokens) (\<lambda>words.
                if lang = ''zh'' then Inr (concat words)
                else if words = [] then Inr []
                else Inr (reconstruct words))))"


section \<open>Verification of the grid codec\<close>

text \<open>Every step of the error monad reduces on a result that is known.\<close>

lemma bindE_simps [simp]: "bindE (Inr x) f = f x" "bindE (Inl e) f = Inl e"
  by (simp_all add: bindE_def)

lemma inv_tables:
  "LANG_CELLS_INV = [((1, 5), ''ar''), ((1, 6), ''zh''), ((1, 7), ''fr''), ((1, 8), ''pt''),
  ((1, 9), ''es''), ((1, 10), ''eng'')]"
  "DATA_TYPES_INV = [((18, 6), ''bin''), ((18, 7), ''enc''), ((18, 8), ''so''), ((18, 9), ''im'')]"
  "SUFFIXES_INV = [((13, 7), CHR ''s''), ((13, 8), CHR ''r''), ((13, 9), CHR ''n'')]"
  by (simp_all add: LANG_CELLS_INV_def LANG_CELLS_def DATA_TYPES_INV_def DATA_TYPES_def
      SUFFIXES_INV_def SUFFIXES_def dict_inv_def)

definition unit_cell :: "int \<Rightarrow> int \<times> int" where
  "unit_cell u = (16 - (u - 1) div 3, 9 - (u - 1) mod 3)"

definition ten_cell :: "int \<Rightarrow> int \<times> int" where
  "ten_cell d = (if d \<le> 5 then (18 - d, 6) else (12, d))"

definition cells_dig :: "int \<Rightarrow> int \<Rightarrow> (int \<Rightarrow> int) \<Rightarrow> (int \<times> int) list" where
  "cells_dig u d h =
     (if 0 < u then [unit_cell u] else []) @
     (if 0 < d then [ten_cell d] else []) @
     concat (map (\<lambda>pc. if 0 < h (fst pc) then [(12 - h (fst pc), snd pc)] else []) places)"

definition cells_of :: "int \<Rightarrow> (int \<times> int) list" where
  "cells_of number =
     cells_dig (number mod 10) ((number div 10) mod 10) (\<lambda>p. (number div p) mod 10)"

lemma digit_cases:
  "0 \<le> (u::int) \<Longrightarrow> u < 10 \<Longrightarrow>
   u = 0 \<or> u = 1 \<or> u = 2 \<or> u = 3 \<or> u = 4 \<or> u = 5 \<or> u = 6 \<or> u = 7 \<or> u = 8 \<or> u = 9"
  by arith

lemma get_units: "0 < u \<Longrightarrow> u < 10 \<Longrightarrow> dict_get pos_units u = Inr (unit_cell u)"
  using digit_cases[of u] by (auto simp: dict_get_def pos_units_def unit_cell_def)

lemma get_tens_low: "0 < d \<Longrightarrow> d \<le> 5 \<Longrightarrow> dict_get pos_tens_low d = Inr (ten_cell d)"
  using digit_cases[of d] by (auto simp: dict_get_def pos_tens_low_def ten_cell_def)

lemma get_tens_high: "5 < d \<Longrightarrow> d < 10 \<Longrightarrow> dict_get pos_tens_high d = Inr (ten_cell d)"
  using digit_cases[of d] by (auto simp: dict_get_def pos_tens_high_def ten_cell_def)

lemma foldl_place_step:
  "foldl (place_step number) cells ps =
   cells @ concat (map (\<lambda>pc. if 0 < (number div fst pc) mod 10
                                 then [(12 - (number div fst pc) mod 10, snd pc)] else []) ps)"
  by (induction ps arbitrary: cells) (simp_all add: place_step_def Let_def)

lemma id_to_cells_eq: "id_to_cells number = Inr (cells_of number)"
proof -
  have u: "0 \<le> number mod 10" "number mod 10 < 10" by simp_all
  have d: "0 \<le> (number div 10) mod 10" "(number div 10) mod 10 < 10" by simp_all
  show ?thesis
    unfolding id_to_cells_def cells_of_def cells_dig_def Let_def
    using u d
    by (simp add: get_units get_tens_low get_tens_high foldl_place_step)
qed

lemma set_cells_dig:
  "(rc \<in> set (cells_dig u d h)) =
     ((0 < u \<and> rc = unit_cell u) \<or>
      (0 < d \<and> rc = ten_cell d) \<or>
      (\<exists>pc \<in> set places. 0 < h (fst pc) \<and> rc = (12 - h (fst pc), snd pc)))"
  by (auto simp: cells_dig_def split: if_splits)

lemma unit_cell_range:
  assumes "0 < u" "u < 10"
  shows "14 \<le> fst (unit_cell u) \<and> fst (unit_cell u) \<le> 16 \<and>
         7 \<le> snd (unit_cell u) \<and> snd (unit_cell u) \<le> 9"
  using digit_cases[of u] assms by (auto simp: unit_cell_def)

lemma unit_cell_eq:
  assumes "0 < u" "u < 10"
  shows "(unit_cell u = (r, c)) = (14 \<le> r \<and> r \<le> 16 \<and> 7 \<le> c \<and> c \<le> 9 \<and> u = 3 * (16 - r) + (9 - c) + 1)"
  using digit_cases[of u] assms by (auto simp: unit_cell_def) presburger+

lemma ten_cell_range:
  assumes "0 < d" "d < 10"
  shows "12 \<le> fst (ten_cell d) \<and> fst (ten_cell d) \<le> 17 \<and>
         6 \<le> snd (ten_cell d) \<and> snd (ten_cell d) \<le> 9 \<and>
         (fst (ten_cell d) \<noteq> 12 \<longrightarrow> snd (ten_cell d) = 6)"
  using assms by (auto simp: ten_cell_def)

lemma places_cols: "pc \<in> set places \<Longrightarrow> 2 \<le> snd pc \<and> snd pc \<le> 9"
  by (auto simp: places_def)

lemma places_inj: "pc \<in> set places \<Longrightarrow> pc' \<in> set places \<Longrightarrow> snd pc = snd pc' \<Longrightarrow> pc = pc'"
  by (auto simp: places_def)

lemma in_cells_cases:
  assumes "rc \<in> set (cells_dig u d h)"
  obtains (units) "0 < u" "rc = unit_cell u"
        | (tens) "0 < d" "rc = ten_cell d"
        | (place) pc where "pc \<in> set places" "0 < h (fst pc)" "rc = (12 - h (fst pc), snd pc)"
  using assms unfolding set_cells_dig by blast

lemma mem_units:
  assumes u: "0 \<le> u" "u < 10" and d: "d < 10"
  assumes rc: "14 \<le> r" "r \<le> 16" "7 \<le> c" "c \<le> 9"
  shows "((r, c) \<in> set (cells_dig u d h)) = (u = 3 * (16 - r) + (9 - c) + 1)"
proof
  assume "(r, c) \<in> set (cells_dig u d h)"
  then show "u = 3 * (16 - r) + (9 - c) + 1"
  proof (cases rule: in_cells_cases)
    case units
    then show ?thesis using unit_cell_eq[of u r c] u by simp
  next
    case tens
    from ten_cell_range[OF tens(1) d] tens(2)[symmetric] rc show ?thesis by auto
  next
    case (place pc)
    then show ?thesis using rc by simp
  qed
next
  assume e: "u = 3 * (16 - r) + (9 - c) + 1"
  then have "0 < u" using rc by simp
  moreover have "unit_cell u = (r, c)" using unit_cell_eq[of u r c] u e rc \<open>0 < u\<close> by simp
  ultimately show "(r, c) \<in> set (cells_dig u d h)" by (simp add: set_cells_dig)
qed

lemma mem_tens_low:
  assumes u: "u < 10" and d: "0 \<le> d" "d < 10"
  assumes rc: "13 \<le> r" "r \<le> 17"
  shows "((r, 6) \<in> set (cells_dig u d h)) = (d = 18 - r)"
proof
  assume "(r, 6) \<in> set (cells_dig u d h)"
  then show "d = 18 - r"
  proof (cases rule: in_cells_cases)
    case units
    from unit_cell_range[OF units(1) u] units(2)[symmetric] show ?thesis by auto
  next
    case tens
    then show ?thesis using rc by (auto simp: ten_cell_def split: if_splits)
  next
    case (place pc)
    then show ?thesis using rc by simp
  qed
next
  assume e: "d = 18 - r"
  then have "0 < d" "ten_cell d = (r, 6)" using rc by (simp_all add: ten_cell_def)
  then show "(r, 6) \<in> set (cells_dig u d h)" by (simp add: set_cells_dig)
qed

lemma mem_tens_high:
  assumes u: "u < 10" and d: "0 \<le> d" "d < 10"
  assumes rc: "6 \<le> c" "c \<le> 9"
  shows "((12, c) \<in> set (cells_dig u d h)) = (d = c)"
proof
  assume "(12, c) \<in> set (cells_dig u d h)"
  then show "d = c"
  proof (cases rule: in_cells_cases)
    case units
    from unit_cell_range[OF units(1) u] units(2)[symmetric] show ?thesis by auto
  next
    case tens
    then show ?thesis using rc by (auto simp: ten_cell_def split: if_splits)
  next
    case (place pc)
    then show ?thesis using rc by simp
  qed
next
  assume e: "d = c"
  then have "0 < d" "ten_cell d = (12, c)" using rc by (simp_all add: ten_cell_def)
  then show "(12, c) \<in> set (cells_dig u d h)" by (simp add: set_cells_dig)
qed

lemma mem_place:
  assumes u: "u < 10" and d: "d < 10"
  assumes pc: "pc \<in> set places" and rc: "3 \<le> r" "r \<le> 11"
  shows "((r, snd pc) \<in> set (cells_dig u d h)) = (h (fst pc) = 12 - r)"
proof
  assume "(r, snd pc) \<in> set (cells_dig u d h)"
  then show "h (fst pc) = 12 - r"
  proof (cases rule: in_cells_cases)
    case units
    from unit_cell_range[OF units(1) u] units(2)[symmetric] rc show ?thesis by auto
  next
    case tens
    from ten_cell_range[OF tens(1) d] tens(2)[symmetric] rc show ?thesis by auto
  next
    case (place pc')
    then have "pc' = pc" using places_inj[OF place(1) pc] by simp
    with place show ?thesis by simp
  qed
next
  assume e: "h (fst pc) = 12 - r"
  then have "0 < h (fst pc)" "(r, snd pc) = (12 - h (fst pc), snd pc)" using rc by simp_all
  then show "(r, snd pc) \<in> set (cells_dig u d h)"
    unfolding set_cells_dig using pc by blast
qed

lemma cells_region:
  assumes u: "u < 10" and d: "d < 10" and h: "\<And>p. h p < 10"
  assumes m: "rc \<in> set (cells_dig u d h)"
  shows "3 \<le> fst rc \<and> fst rc \<le> 17 \<and> 2 \<le> snd rc \<and> snd rc \<le> 9 \<and>
         (fst rc = 13 \<longrightarrow> snd rc = 6)"
  using m
proof (cases rule: in_cells_cases)
  case units
  from unit_cell_range[OF units(1) u] units(2)[symmetric] show ?thesis by auto
next
  case tens
  from ten_cell_range[OF tens(1) d] tens(2)[symmetric] show ?thesis by auto
next
  case (place pc)
  with h[of "fst pc"] places_cols[OF place(1)] show ?thesis by auto
qed

definition active :: "image \<Rightarrow> int \<Rightarrow> int \<Rightarrow> int \<Rightarrow> bool" where
  "active img bx r c = (pix img (bx * 10 + (c - 1), r - 1) = 0)"

definition block_ok :: "image \<Rightarrow> int \<Rightarrow> bool" where
  "block_ok img bx = (0 \<le> bx \<and> bx * 10 + 10 \<le> width img \<and> 20 \<le> height img)"

lemma read_cell_ok:
  assumes "block_ok img bx" "1 \<le> r" "r \<le> 20" "1 \<le> c" "c \<le> 10"
  shows "read_cell img bx r c = Inr (active img bx r c)"
  using assms
  by (simp add: read_cell_def getpixel_def locate_def block_ok_def active_def Let_def)

definition shows_cells :: "image \<Rightarrow> int \<Rightarrow> (int \<times> int) set \<Rightarrow> bool" where
  "shows_cells img bx S =
     (block_ok img bx \<and>
      (\<forall>r c. 1 \<le> r \<and> r \<le> 20 \<and> 1 \<le> c \<and> c \<le> 10 \<longrightarrow> active img bx r c = ((r, c) \<in> S)))"

lemma read_cell_shows:
  assumes "shows_cells img bx S" "1 \<le> r" "r \<le> 20" "1 \<le> c" "c \<le> 10"
  shows "read_cell img bx r c = Inr ((r, c) \<in> S)"
  using assms read_cell_ok[of img bx r c] by (simp add: shows_cells_def)

definition marker_cells :: "char option \<Rightarrow> (int \<times> int) list" where
  "marker_cells suffix =
     (case suffix of
        None \<Rightarrow> []
      | Some s \<Rightarrow> (case map_of SUFFIXES s of None \<Rightarrow> [] | Some rc \<Rightarrow> [rc]))"

definition marker_tag :: "char option \<Rightarrow> char" where
  "marker_tag suffix =
     (if suffix = Some CHR ''s'' then CHR ''s''
      else if suffix = Some CHR ''r'' then CHR ''r''
      else if suffix = Some CHR ''n'' then CHR ''n'' else CHR ''b'')"

lemma set_marker_cells:
  "set (marker_cells suffix) =
     (if suffix = Some CHR ''s'' then {(13, 7)}
      else if suffix = Some CHR ''r'' then {(13, 8)}
      else if suffix = Some CHR ''n'' then {(13, 9)} else {})"
  by (auto simp: marker_cells_def SUFFIXES_def split: option.splits if_splits)

lemma marker_row: "rc \<in> set (marker_cells suffix) \<Longrightarrow> fst rc = 13 \<and> 7 \<le> snd rc \<and> snd rc \<le> 9"
  by (auto simp: set_marker_cells split: if_splits)

lemma not_marker: "r \<noteq> 13 \<Longrightarrow> ((r, c) \<in> set (marker_cells suffix)) = False"
  using marker_row[of "(r, c)" suffix] by auto

lemma not_marker_col6: "((r, 6) \<in> set (marker_cells suffix)) = False"
  using marker_row[of "(r, 6)" suffix] by auto

lemma upto_1_9: "[1..9] = [1, 2, 3, 4, 5, 6, 7, 8, 9 :: int]"
  by code_simp

text \<open>The digits shown by a block, read back group by group.\<close>

lemma units_read:
  assumes sh: "shows_cells img bx (set (cells_dig u d h) \<union> set (marker_cells sfx))"
  assumes u: "0 \<le> u" "u < 10" and d: "d < 10"
  shows "first_key img bx pos_units = Inr (if u = 0 then None else Some u)"
proof -
  have a: "\<And>r c. 14 \<le> r \<Longrightarrow> r \<le> 16 \<Longrightarrow> 7 \<le> c \<Longrightarrow> c \<le> 9 \<Longrightarrow>
             read_cell img bx r c = Inr (u = 3 * (16 - r) + (9 - c) + 1)"
    using read_cell_shows[OF sh] mem_units[OF u d, of _ _ h]
    by (simp add: not_marker)
  show ?thesis
    using digit_cases[OF u] by (auto simp: pos_units_def a)
qed

lemma tens_high_read:
  assumes sh: "shows_cells img bx (set (cells_dig u d h) \<union> set (marker_cells sfx))"
  assumes u: "u < 10" and d: "0 \<le> d" "d < 10"
  shows "first_key img bx pos_tens_high = Inr (if 6 \<le> d then Some d else None)"
proof -
  have a: "\<And>c. 6 \<le> c \<Longrightarrow> c \<le> 9 \<Longrightarrow> read_cell img bx 12 c = Inr (d = c)"
    using read_cell_shows[OF sh] mem_tens_high[OF u d, of _ h]
    by (simp add: not_marker)
  show ?thesis
    using digit_cases[OF d] by (auto simp: pos_tens_high_def a)
qed

lemma tens_low_read:
  assumes sh: "shows_cells img bx (set (cells_dig u d h) \<union> set (marker_cells sfx))"
  assumes u: "u < 10" and d: "0 \<le> d" "d < 10"
  shows "first_key img bx pos_tens_low = Inr (if 1 \<le> d \<and> d \<le> 5 then Some d else None)"
proof -
  have a: "\<And>r. 13 \<le> r \<Longrightarrow> r \<le> 17 \<Longrightarrow> read_cell img bx r 6 = Inr (d = 18 - r)"
    using read_cell_shows[OF sh] mem_tens_low[OF u d, of _ h]
    by (simp add: not_marker_col6)
  show ?thesis
    using digit_cases[OF d] by (auto simp: pos_tens_low_def a)
qed

lemma column_read:
  assumes sh: "shows_cells img bx (set (cells_dig u d h) \<union> set (marker_cells sfx))"
  assumes u: "u < 10" and d: "d < 10" and h: "0 \<le> h (fst pc)" "h (fst pc) < 10"
  assumes pc: "pc \<in> set places"
  shows "probe_column img bx (fst pc) (snd pc) [1..9] =
         Inr (if h (fst pc) = 0 then None else Some (h (fst pc)))"
proof -
  have col: "1 \<le> snd pc" "snd pc \<le> 10" using places_cols[OF pc] by simp_all
  have a: "\<And>r. 3 \<le> r \<Longrightarrow> r \<le> 11 \<Longrightarrow> read_cell img bx r (snd pc) = Inr (h (fst pc) = 12 - r)"
    using read_cell_shows[OF sh _ _ col] mem_place[OF u d pc, of _ h]
    by (simp add: not_marker)
  show ?thesis
    using digit_cases[OF h] by (auto simp: upto_1_9 a)
qed

lemma places_read:
  assumes sh: "shows_cells img bx (set (cells_dig u d h) \<union> set (marker_cells sfx))"
  assumes u: "u < 10" and d: "d < 10" and h: "\<And>p. 0 \<le> h p \<and> h p < 10"
  assumes ps: "set ps \<subseteq> set places"
  shows "read_places img bx number ps = Inr (number + (\<Sum>pc\<leftarrow>ps. h (fst pc) * fst pc))"
  using ps
proof (induction ps arbitrary: number)
  case Nil
  then show ?case by simp
next
  case (Cons pc ps)
  have pc: "pc \<in> set places" using Cons.prems by simp
  have hb: "0 \<le> h (fst pc)" "h (fst pc) < 10" using h by simp_all
  show ?case
    using Cons.prems
    by (simp add: column_read[OF sh u d hb pc] Cons.IH)
qed

lemma suffix_read:
  assumes sh: "shows_cells img bx (set (cells_dig u d h) \<union> set (marker_cells sfx))"
  assumes u: "u < 10" and d: "d < 10" and h: "\<And>p. h p < 10"
  shows "first_cell img bx SUFFIXES_INV =
         Inr (if marker_tag sfx = CHR ''b'' then None else Some (marker_tag sfx))"
proof -
  have n: "((13, c) \<in> set (cells_dig u d h)) = False" if "7 \<le> c" for c
  proof -
    have "(13, c) \<notin> set (cells_dig u d h)"
    proof
      assume "(13, c) \<in> set (cells_dig u d h)"
      from cells_region[where h = h, OF u d h this] that show False by simp
    qed
    then show ?thesis by simp
  qed
  have a: "\<And>c. 7 \<le> c \<Longrightarrow> c \<le> 9 \<Longrightarrow>
             read_cell img bx 13 c = Inr ((13, c) \<in> set (marker_cells sfx))"
    using read_cell_shows[OF sh] by (simp add: n)
  show ?thesis
    by (simp add: inv_tables a set_marker_cells marker_tag_def)
qed

lemma read_block_shows:
  assumes sh: "shows_cells img bx (set (cells_dig u d h) \<union> set (marker_cells sfx))"
  assumes u: "0 \<le> u" "u < 10" and d: "0 \<le> d" "d < 10" and h: "\<And>p. 0 \<le> h p \<and> h p < 10"
  shows "read_block img bx =
         Inr (u + d * 10 + (\<Sum>pc\<leftarrow>places. h (fst pc) * fst pc), marker_tag sfx)"
proof -
  have h': "\<And>p. h p < 10" using h by simp
  have U: "first_key img bx pos_units = Inr (if u = 0 then None else Some u)"
    by (rule units_read[OF sh u d(2)])
  have TH: "first_key img bx pos_tens_high = Inr (if 6 \<le> d then Some d else None)"
    by (rule tens_high_read[OF sh u(2) d])
  have TL: "first_key img bx pos_tens_low = Inr (if 1 \<le> d \<and> d \<le> 5 then Some d else None)"
    by (rule tens_low_read[OF sh u(2) d])
  have P: "\<And>n. read_places img bx n places = Inr (n + (\<Sum>pc\<leftarrow>places. h (fst pc) * fst pc))"
    by (rule places_read[OF sh u(2) d(2) h]) simp
  have S: "first_cell img bx SUFFIXES_INV =
           Inr (if marker_tag sfx = CHR ''b'' then None else Some (marker_tag sfx))"
    by (rule suffix_read[OF sh u(2) d(2) h'])
  show ?thesis
    unfolding read_block_def Let_def U TH TL P S
    using d by (auto simp: P)
qed

lemma decimal_sum:
  "v mod 10 + (v div 10 mod 10) * 10 + (\<Sum>pc\<leftarrow>places. (v div fst pc mod 10) * fst pc)
   = v mod 10000000000"
proof -
  define a0 where "a0 = v mod 10"
  define a1 where "a1 = v div 10 mod 10"
  define a2 where "a2 = v div 100 mod 10"
  define a3 where "a3 = v div 1000 mod 10"
  define a4 where "a4 = v div 10000 mod 10"
  define a5 where "a5 = v div 100000 mod 10"
  define a6 where "a6 = v div 1000000 mod 10"
  define a7 where "a7 = v div 10000000 mod 10"
  define a8 where "a8 = v div 100000000 mod 10"
  define a9 where "a9 = v div 1000000000 mod 10"
  define m2 where "m2 = v mod 100"
  define m3 where "m3 = v mod 1000"
  define m4 where "m4 = v mod 10000"
  define m5 where "m5 = v mod 100000"
  define m6 where "m6 = v mod 1000000"
  define m7 where "m7 = v mod 10000000"
  define m8 where "m8 = v mod 100000000"
  define m9 where "m9 = v mod 1000000000"
  define m10 where "m10 = v mod 10000000000"
  have s2: "m2 = 10 * a1 + a0"
    unfolding m2_def a1_def a0_def using zmod_zmult2_eq[where a = v and b = 10 and c = 10] by simp
  have s3: "m3 = 100 * a2 + m2"
    unfolding m3_def a2_def m2_def using zmod_zmult2_eq[where a = v and b = 100 and c = 10] by simp
  have s4: "m4 = 1000 * a3 + m3"
    unfolding m4_def a3_def m3_def using zmod_zmult2_eq[where a = v and b = 1000 and c = 10] by simp
  have s5: "m5 = 10000 * a4 + m4"
    unfolding m5_def a4_def m4_def using zmod_zmult2_eq[where a = v and b = 10000 and c = 10] by simp
  have s6: "m6 = 100000 * a5 + m5"
    unfolding m6_def a5_def m5_def using zmod_zmult2_eq[where a = v and b = 100000 and c = 10] by simp
  have s7: "m7 = 1000000 * a6 + m6"
    unfolding m7_def a6_def m6_def using zmod_zmult2_eq[where a = v and b = 1000000 and c = 10] by simp
  have s8: "m8 = 10000000 * a7 + m7"
    unfolding m8_def a7_def m7_def using zmod_zmult2_eq[where a = v and b = 10000000 and c = 10] by simp
  have s9: "m9 = 100000000 * a8 + m8"
    unfolding m9_def a8_def m8_def using zmod_zmult2_eq[where a = v and b = 100000000 and c = 10] by simp
  have s10: "m10 = 1000000000 * a9 + m9"
    unfolding m10_def a9_def m9_def using zmod_zmult2_eq[where a = v and b = 1000000000 and c = 10] by simp
  have "a0 + a1 * 10 + (a2 * 100 + (a3 * 1000 + (a4 * 10000 + (a5 * 100000 + (a6 * 1000000 +
        (a7 * 10000000 + (a8 * 100000000 + (a9 * 1000000000 + 0)))))))) = m10"
    using s2 s3 s4 s5 s6 s7 s8 s9 s10 by linarith
  then show ?thesis
    unfolding places_def a0_def a1_def a2_def a3_def a4_def a5_def a6_def a7_def a8_def a9_def
      m10_def
    by simp
qed

lemma read_block_cells_of:
  assumes sh: "shows_cells img bx (set (cells_of v) \<union> set (marker_cells sfx))"
  shows "read_block img bx = Inr (v mod 10000000000, marker_tag sfx)"
proof -
  have "read_block img bx =
        Inr (v mod 10 + (v div 10 mod 10) * 10 + (\<Sum>pc\<leftarrow>places. (v div fst pc mod 10) * fst pc),
             marker_tag sfx)"
    by (rule read_block_shows[OF sh[unfolded cells_of_def]]) simp_all
  then show ?thesis by (simp only: decimal_sum)
qed

definition in_grid :: "int \<times> int \<Rightarrow> bool" where
  "in_grid rc = (0 \<le> fst rc - 1 \<and> fst rc - 1 < 20 \<and> 0 \<le> snd rc - 1 \<and> snd rc - 1 < 10)"

definition ink :: "(int \<times> int) list \<Rightarrow> (int \<times> int) set" where
  "ink cells = (\<lambda>rc. (snd rc - 1, fst rc - 1)) ` {rc \<in> set cells. in_grid rc}"

lemma ink_simps:
  "ink [] = {}"
  "ink (rc # cells) = (if in_grid rc then insert (snd rc - 1, fst rc - 1) (ink cells) else ink cells)"
  by (auto simp: ink_def)

lemma ink_iff: "((x, y) \<in> ink cells) = ((y + 1, x + 1) \<in> set cells \<and> in_grid (y + 1, x + 1))"
  by (force simp: ink_def image_iff)

lemma paint_cells_eq:
  assumes "width px = 10" "height px = 20"
  shows "paint_cells px cells = Inr (px\<lparr>pix := (\<lambda>p. if p \<in> ink cells then 0 else pix px p)\<rparr>)"
  using assms
proof (induction cells arbitrary: px)
  case Nil
  then show ?case by (simp add: ink_simps)
next
  case (Cons rc cells)
  show ?case
  proof (cases "in_grid rc")
    case False
    then show ?thesis
      using Cons.IH[OF Cons.prems] by (auto simp: ink_simps in_grid_def)
  next
    case True
    let ?px = "px\<lparr>pix := (pix px)((snd rc - 1, fst rc - 1) := 0)\<rparr>"
    have put: "putpixel px (snd rc - 1, fst rc - 1) 0 = Inr ?px"
      using True Cons.prems by (simp add: putpixel_def locate_def in_grid_def Let_def)
    have dims: "width ?px = 10" "height ?px = 20" using Cons.prems by simp_all
    have "paint_cells px (rc # cells) = paint_cells ?px cells"
      using True put by (simp add: in_grid_def)
    also have "\<dots> = Inr (?px\<lparr>pix := (\<lambda>p. if p \<in> ink cells then 0 else pix ?px p)\<rparr>)"
      by (rule Cons.IH[OF dims])
    also have "?px\<lparr>pix := (\<lambda>p. if p \<in> ink cells then 0 else pix ?px p)\<rparr> =
               px\<lparr>pix := (\<lambda>p. if p \<in> ink (rc # cells) then 0 else pix px p)\<rparr>"
      using True by (auto simp: ink_simps fun_eq_iff)
    finally show ?thesis .
  qed
qed

definition block_of :: "(int \<times> int) list \<Rightarrow> image" where
  "block_of cells = \<lparr>width = 10, height = 20, pix = (\<lambda>p. if p \<in> ink cells then 0 else 1)\<rparr>"

lemma render_block_eq: "render_block cells = Inr (block_of cells)"
  by (simp add: render_block_def paint_cells_eq Image_new_def block_of_def cong: if_cong)

lemma active_block_of:
  assumes "1 \<le> r" "r \<le> 20" "1 \<le> c" "c \<le> 10"
  shows "active (block_of cells) 0 r c = ((r, c) \<in> set cells)"
  using assms by (simp add: active_def block_of_def ink_iff in_grid_def)

lemma shows_block_of: "shows_cells (block_of cells) 0 (set cells)"
  by (simp add: shows_cells_def active_block_of) (simp add: block_ok_def block_of_def)

lemma read_block_render:
  "read_block (block_of (cells_of v @ marker_cells sfx)) 0 = Inr (v mod 10000000000, marker_tag sfx)"
  using shows_block_of[of "cells_of v @ marker_cells sfx"]
  by (intro read_block_cells_of) simp

lemma marker_cells_None: "marker_cells None = []"
  by (simp add: marker_cells_def)

lemma place_lit:
  assumes pc: "pc \<in> set places" and r: "3 \<le> r" "r \<le> 11"
  shows "((r, snd pc) \<in> set (cells_of number)) = ((number div fst pc) mod 10 = 12 - r)"
  unfolding cells_of_def
  by (rule mem_place[OF _ _ pc r]) simp_all


section \<open>Claims about the grid codec\<close>

text \<open>
  C1 (grid-codec round trip). For every integer \<open>v\<close> with \<open>0 \<le> v \<le> 9,999,999,999\<close>, the cells
  of \<open>id_to_cells v\<close>, inked on a fresh 10 by 20 block with no tag marker and read back with
  \<open>read_block\<close>, give the value \<open>v\<close> and the default tag \<open>b\<close>; no step raises.
\<close>

theorem grid_round_trip:
  assumes "0 \<le> v" "v \<le> 9999999999"
  shows "bindE (id_to_cells v) (\<lambda>cells. bindE (render_block cells) (\<lambda>block. read_block block 0))
         = Inr (v, CHR ''b'')"
proof -
  have "v mod 10000000000 = v" using assms by simp
  then show ?thesis
    using read_block_render[of v None]
    by (simp add: id_to_cells_eq render_block_eq marker_cells_None marker_tag_def)
qed

text \<open>The round trip at the largest ten-digit value with ten different digits.\<close>

theorem grid_round_trip_witness:
  "bindE (id_to_cells 9876543210) (\<lambda>cells. bindE (render_block cells) (\<lambda>block. read_block block 0))
   = Inr (9876543210, CHR ''b'')"
  using grid_round_trip[of 9876543210] by simp

text \<open>
  C6 (digit placement). For every value, \<open>id_to_cells\<close> returns a cell list (it never raises)
  in which, for each of the eight place values with its column, the cell
  \<open>(11 - (digit - 1), column)\<close> is present when \<open>digit = (value div place) mod 10\<close> is not zero,
  and no other cell of rows 3 to 11 of that column is present.
\<close>

theorem digit_placement:
  "\<exists>cells. id_to_cells number = Inr cells \<and>
     (\<forall>(place, col) \<in> set [(100, 7), (1000, 8), (10000, 9), (100000, 6), (1000000, 5),
                              (10000000, 4), (100000000, 3), (1000000000, 2)].
        let digit = (number div place) mod 10
        in (digit \<noteq> 0 \<longrightarrow> (11 - (digit - 1), col) \<in> set cells) \<and>
           (\<forall>r. 3 \<le> r \<and> r \<le> 11 \<and> (r, col) \<in> set cells \<longrightarrow> digit \<noteq> 0 \<and> r = 11 - (digit - 1)))"
proof -
  have core: "(number div fst pc mod 10 \<noteq> 0 \<longrightarrow>
           (11 - (number div fst pc mod 10 - 1), snd pc) \<in> set (cells_of number)) \<and>
        (\<forall>r. 3 \<le> r \<and> r \<le> 11 \<and> (r, snd pc) \<in> set (cells_of number) \<longrightarrow>
           number div fst pc mod 10 \<noteq> 0 \<and> r = 11 - (number div fst pc mod 10 - 1))"
    if pc: "pc \<in> set places" for pc
  proof -
    define digit where "digit = number div fst pc mod 10"
    have b: "0 \<le> digit" "digit < 10" by (simp_all add: digit_def)
    have m: "\<And>r. 3 \<le> r \<Longrightarrow> r \<le> 11 \<Longrightarrow> ((r, snd pc) \<in> set (cells_of number)) = (digit = 12 - r)"
      unfolding digit_def by (rule place_lit[OF pc])
    have "digit \<noteq> 0 \<longrightarrow> (11 - (digit - 1), snd pc) \<in> set (cells_of number)"
      using b m[of "11 - (digit - 1)"] by simp
    moreover have "\<forall>r. 3 \<le> r \<and> r \<le> 11 \<and> (r, snd pc) \<in> set (cells_of number) \<longrightarrow>
                     digit \<noteq> 0 \<and> r = 11 - (digit - 1)"
      using m by auto
    ultimately show ?thesis unfolding digit_def by simp
  qed
  have "\<forall>pc \<in> set places.
               let digit = (number div fst pc) mod 10
               in (digit \<noteq> 0 \<longrightarrow> (11 - (digit - 1), snd pc) \<in> set (cells_of number)) \<and>
                  (\<forall>r. 3 \<le> r \<and> r \<le> 11 \<and> (r, snd pc) \<in> set (cells_of number) \<longrightarrow>
                     digit \<noteq> 0 \<and> r = 11 - (digit - 1))"
  proof
    fix pc assume "pc \<in> set places"
    from core[OF this] show "let digit = (number div fst pc) mod 10
               in (digit \<noteq> 0 \<longrightarrow> (11 - (digit - 1), snd pc) \<in> set (cells_of number)) \<and>
                  (\<forall>r. 3 \<le> r \<and> r \<le> 11 \<and> (r, snd pc) \<in> set (cells_of number) \<longrightarrow>
                     digit \<noteq> 0 \<and> r = 11 - (digit - 1))"
      unfolding Let_def .
  qed
  then have "\<forall>(place, col) \<in> set places.
               let digit = (number div place) mod 10
               in (digit \<noteq> 0 \<longrightarrow> (11 - (digit - 1), col) \<in> set (cells_of number)) \<and>
                  (\<forall>r. 3 \<le> r \<and> r \<le> 11 \<and> (r, col) \<in> set (cells_of number) \<longrightarrow>
                     digit \<noteq> 0 \<and> r = 11 - (digit - 1))"
    by (simp add: case_prod_unfold)
  then show ?thesis
    unfolding id_to_cells_eq places_def by blast
qed

text \<open>Scenario B: \<open>id_to_cells 205\<close> is the list of the cells (15, 8) and (10, 7).\<close>

theorem digit_placement_witness:
  "id_to_cells 205 = Inr [(15, 8), (10, 7)] \<and>
   (\<exists>cells. id_to_cells 205 = Inr cells \<and> (10, 7) \<in> set cells \<and> (11, 8) \<notin> set cells)"
proof -
  have e: "id_to_cells 205 = Inr [(15, 8), (10, 7)]"
    by (simp add: id_to_cells_def dict_get_def pos_units_def pos_tens_low_def
        pos_tens_high_def places_def place_step_def)
  from digit_placement[of 205] obtain cells where
    c: "id_to_cells 205 = Inr cells" and "(10, 7) \<in> set cells"
    by (auto simp: Let_def)
  with e show ?thesis by auto
qed

text \<open>
  C9 (zero and blank blocks). \<open>id_to_cells 0\<close> is the empty list, so the block of the value 0
  is the untouched background; and a block whose 10 by 20 pixels are all background, at any
  position of a strip that holds it, is read by \<open>read_block\<close> as \<open>(0, b)\<close> and contributes the
  wire item \<open>0b\<close>.
\<close>

theorem blank_block:
  "id_to_cells 0 = Inr [] \<and>
   render_block [] = Inr (Image_new (10, 20) 1) \<and>
   (\<forall>img bx.
      0 \<le> bx \<and> bx * 10 + 10 \<le> width img \<and> 20 \<le> height img \<and>
      (\<forall>x y. bx * 10 \<le> x \<and> x < bx * 10 + 10 \<and> 0 \<le> y \<and> y < 20 \<longrightarrow> pix img (x, y) \<noteq> 0)
      \<longrightarrow> read_block img bx = Inr (0, CHR ''b'') \<and> read_blocks img [bx] = Inr [''0b''])"
proof -
  have c0: "cells_of 0 = []"
    by (simp add: cells_of_def cells_dig_def places_def)
  have "read_block img bx = Inr (0, CHR ''b'') \<and> read_blocks img [bx] = Inr [''0b'']"
    if ok: "0 \<le> bx" "bx * 10 + 10 \<le> width img" "20 \<le> height img"
      and bg: "\<And>x y. bx * 10 \<le> x \<Longrightarrow> x < bx * 10 + 10 \<Longrightarrow> 0 \<le> y \<Longrightarrow> y < 20 \<Longrightarrow> pix img (x, y) \<noteq> 0"
    for img bx
  proof -
    have "shows_cells img bx (set (cells_of 0) \<union> set (marker_cells None))"
      using ok bg by (simp add: shows_cells_def block_ok_def active_def c0 marker_cells_None)
    from read_block_cells_of[OF this]
    have rb: "read_block img bx = Inr (0, CHR ''b'')" by (simp add: marker_tag_def)
    have "py_str 0 = ''0''" by (simp add: py_str_def digits_of.simps digit_char_def)
    with rb show ?thesis by simp
  qed
  then have "\<forall>img bx.
      0 \<le> bx \<and> bx * 10 + 10 \<le> width img \<and> 20 \<le> height img \<and>
      (\<forall>x y. bx * 10 \<le> x \<and> x < bx * 10 + 10 \<and> 0 \<le> y \<and> y < 20 \<longrightarrow> pix img (x, y) \<noteq> 0)
      \<longrightarrow> read_block img bx = Inr (0, CHR ''b'') \<and> read_blocks img [bx] = Inr [''0b'']"
    by blast
  moreover have "id_to_cells 0 = Inr []" by (simp add: id_to_cells_eq c0)
  moreover have "render_block [] = Inr (Image_new (10, 20) 1)" by (simp add: render_block_def)
  ultimately show ?thesis by blast
qed

text \<open>A fresh block read back.\<close>

theorem blank_block_witness:
  "read_block (Image_new (10, 20) 1) 0 = Inr (0, CHR ''b'') \<and>
   read_blocks (Image_new (10, 20) 1) [0] = Inr [''0b'']"
proof -
  have "0 \<le> (0::int) \<and> 0 * 10 + 10 \<le> width (Image_new (10, 20) 1) \<and>
        20 \<le> height (Image_new (10, 20) 1) \<and>
        (\<forall>x y. 0 * 10 \<le> x \<and> x < 0 * 10 + 10 \<and> 0 \<le> y \<and> y < 20 \<longrightarrow>
           pix (Image_new (10, 20) 1) (x, y) \<noteq> 0)"
    by (simp add: Image_new_def)
  with blank_block show ?thesis by blast
qed

section \<open>Verification of the encoder and the decoder\<close>

definition is_tag :: "char \<Rightarrow> bool" where
  "is_tag ch = (ch \<in> set ''bnsr'')"

lemma digit_not_tag: "isdigit ch \<Longrightarrow> \<not> is_tag ch"
  by (auto simp: isdigit_def is_tag_def)

lemma parse_item_foldl:
  "foldl (\<lambda>st ch. if isdigit ch then (fst st, snd st @ [ch])
                     else if is_tag ch then (Some ch, snd st)
                     else st) (sfx, num) token =
   ((if filter is_tag token = [] then sfx else Some (last (filter is_tag token))),
    num @ filter isdigit token)"
proof (induction token arbitrary: sfx num)
  case Nil
  then show ?case by simp
next
  case (Cons ch token)
  consider (d) "isdigit ch" "\<not> is_tag ch" | (t) "\<not> isdigit ch" "is_tag ch"
    | (o) "\<not> isdigit ch" "\<not> is_tag ch"
    using digit_not_tag by blast
  then show ?case
    by cases (simp_all add: Cons.IH)
qed

lemma parse_item_eq:
  "parse_item token =
   ((if filter is_tag token = [] then None else Some (last (filter is_tag token))),
    filter isdigit token)"
  unfolding parse_item_def is_tag_def[symmetric] by (simp only: parse_item_foldl append_Nil)

lemma digit_char_props:
  assumes "0 \<le> d" "d < 10"
  shows "isdigit (digit_char d)" "digit_val (digit_char d) = d"
  using digit_cases[OF assms]
  by (auto simp: digit_char_def isdigit_def digit_val_def)

lemma digits_of_isdigit: "0 \<le> n \<Longrightarrow> list_all isdigit (digits_of n) \<and> digits_of n \<noteq> []"
proof (induction n rule: digits_of.induct)
  case (1 n)
  show ?case
  proof (cases "n < 10")
    case True
    then show ?thesis using 1(2) by (subst (1 2) digits_of.simps) (simp add: digit_char_props)
  next
    case False
    then have "0 \<le> n div 10" using 1(2) by simp
    from 1(1)[OF False this] False show ?thesis
      by (subst (1 2) digits_of.simps) (simp add: digit_char_props)
  qed
qed

definition int_digits :: "string \<Rightarrow> int" where
  "int_digits s = foldl (\<lambda>a ch. 10 * a + digit_val ch) 0 s"

lemma int_digits_snoc: "int_digits (s @ [ch]) = 10 * int_digits s + digit_val ch"
  by (simp add: int_digits_def)

lemma int_digits_of: "0 \<le> n \<Longrightarrow> int_digits (digits_of n) = n"
proof (induction n rule: digits_of.induct)
  case (1 n)
  show ?case
  proof (cases "n < 10")
    case True
    then show ?thesis using 1(2)
      by (subst digits_of.simps) (simp add: int_digits_def digit_char_props)
  next
    case False
    then have "0 \<le> n div 10" using 1(2) by simp
    from 1(1)[OF False this] False show ?thesis
      by (subst digits_of.simps) (simp add: int_digits_snoc digit_char_props)
  qed
qed

lemma py_int_digits: "s \<noteq> [] \<Longrightarrow> list_all isdigit s \<Longrightarrow> py_int s = Inr (int_digits s)"
  by (simp add: py_int_def int_digits_def)

lemma py_int_py_str: "0 \<le> v \<Longrightarrow> py_int (py_str v) = Inr v"
  using digits_of_isdigit[of v] by (simp add: py_str_def py_int_digits int_digits_of)

lemma filter_isdigit_id: "list_all isdigit s \<Longrightarrow> filter isdigit s = s"
  by (induction s) simp_all

lemma filter_tag_digits: "list_all isdigit s \<Longrightarrow> filter is_tag s = []"
  by (induction s) (simp_all add: digit_not_tag)

lemma py_str_nonneg_digits: "0 \<le> v \<Longrightarrow> list_all isdigit (py_str v) \<and> py_str v \<noteq> []"
  using digits_of_isdigit[of v] by (simp add: py_str_def)

lemma py_str_small: "py_str 0 = ''0''" "py_str 5 = ''5''" "py_str 12 = ''12''" "py_str 7 = ''7''"
  "py_str 2 = ''2''" "py_str 3 = ''3''"
  by (simp_all add: py_str_def digits_of.simps digit_char_def)

lemma encode_step_fst:
  "fst (encode_step enc lang (raw, nf) t) = fst (encode_step enc lang (raw, nf') t)"
  by (simp add: encode_step_def Let_def split: option.splits)

lemma phase1_fst_indep:
  "fst (foldl (encode_step enc lang) (raw, nf) ts) = fst (foldl (encode_step enc lang) (raw, nf') ts)"
proof (induction ts arbitrary: raw nf nf')
  case Nil
  then show ?case by simp
next
  case (Cons t ts)
  obtain r1 n1 where s1: "encode_step enc lang (raw, nf) t = (r1, n1)" by (cases "encode_step enc lang (raw, nf) t")
  obtain r2 n2 where s2: "encode_step enc lang (raw, nf') t = (r2, n2)" by (cases "encode_step enc lang (raw, nf') t")
  have "r1 = r2" using encode_step_fst[of enc lang raw nf t nf'] s1 s2 by simp
  then show ?case using Cons.IH[where raw = r1 and nf = n1 and nf' = n2] s1 s2 by simp
qed

lemma phase1_snd_mono:
  "set nf \<subseteq> set (snd (foldl (encode_step enc lang) (raw, nf) ts))"
proof (induction ts arbitrary: raw nf)
  case Nil
  then show ?case by simp
next
  case (Cons t ts)
  obtain r1 n1 where s1: "encode_step enc lang (raw, nf) t = (r1, n1)" by (cases "encode_step enc lang (raw, nf) t")
  have "set nf \<subseteq> set n1" using s1 by (auto simp: encode_step_def Let_def split: option.splits if_splits)
  then show ?case using Cons.IH[where raw = r1 and nf = n1] s1 by auto
qed

lemma encode_step_dropped:
  assumes "\<not> is_number_token t"
      and "enc (if lang \<noteq> ''zh'' then map lower_char t else t) = None" "enc t = None"
  shows "encode_step enc lang st t = (fst st, snd st @ [t])"
  using assms by (simp add: encode_step_def Let_def)

lemma phase1_dropped:
  assumes "\<not> is_number_token t"
      and "enc (if lang \<noteq> ''zh'' then map lower_char t else t) = None" "enc t = None"
  shows "fst (encode_phase1 enc lang (xs @ t # ys)) = fst (encode_phase1 enc lang (xs @ ys))"
    and "t \<in> set (snd (encode_phase1 enc lang (xs @ t # ys)))"
proof -
  obtain r n where s: "foldl (encode_step enc lang) ([], []) xs = (r, n)"
    by (cases "foldl (encode_step enc lang) ([], []) xs")
  have e: "encode_step enc lang (r, n) t = (r, n @ [t])"
    using encode_step_dropped[OF assms, of "(r, n)"] by simp
  show "fst (encode_phase1 enc lang (xs @ t # ys)) = fst (encode_phase1 enc lang (xs @ ys))"
    unfolding encode_phase1_def using s e phase1_fst_indep[of enc lang r "n @ [t]" ys n] by simp
  show "t \<in> set (snd (encode_phase1 enc lang (xs @ t # ys)))"
    unfolding encode_phase1_def using s e phase1_snd_mono[of "n @ [t]" enc lang r ys] by auto
qed

lemma decode_step_placeholder:
  assumes "fst (parse_item item) = None \<or> fst (parse_item item) = Some CHR ''b''"
      and "snd (parse_item item) \<noteq> []"
      and "py_int (snd (parse_item item)) = Inr tid"
      and "dec tid = None"
  shows "decode_step dec words item = Inr (words @ [''[?'' @ py_str tid @ '']''])"
  using assms by (auto simp: decode_step_def Let_def)

text \<open>Run-length compression as a recursion over the list of raw items.\<close>

function rle :: "string list \<Rightarrow> string list" where
  "rle [] = []"
| "rle (x # xs) =
     (if takeWhile (\<lambda>y. y = x) xs \<noteq> []
      then [x, py_str (int (length (takeWhile (\<lambda>y. y = x) xs) + 1)) @ ''r'']
      else [x]) @ rle (dropWhile (\<lambda>y. y = x) xs)"
  by pat_completeness auto
termination
  by (relation "measure length") (auto simp: less_Suc_eq_le length_dropWhile_le)

lemma run_length_eq:
  "i + count \<le> length raw \<Longrightarrow>
   run_length raw i count = count + length (takeWhile (\<lambda>y. y = raw ! i) (drop (i + count) raw))"
proof (induction raw i count rule: run_length.induct)
  case (1 raw i count)
  show ?case
  proof (cases "i + count < length raw \<and> raw ! (i + count) = raw ! i")
    case True
    then have d: "drop (i + count) raw = raw ! (i + count) # drop (i + (count + 1)) raw"
      using Cons_nth_drop_Suc[of "i + count" raw] by simp
    have "run_length raw i count = run_length raw i (count + 1)"
      using True by (subst run_length.simps) simp
    also have "\<dots> = count + 1 + length (takeWhile (\<lambda>y. y = raw ! i) (drop (i + (count + 1)) raw))"
      using 1(1)[OF True] True by simp
    finally show ?thesis using True d by simp
  next
    case False
    have r: "run_length raw i count = count"
      using False by (subst run_length.simps) auto
    show ?thesis
    proof (cases "i + count < length raw")
      case True
      then have d: "drop (i + count) raw = raw ! (i + count) # drop (i + (count + 1)) raw"
        using Cons_nth_drop_Suc[of "i + count" raw] by simp
      from True False have "raw ! (i + count) \<noteq> raw ! i" by simp
      then show ?thesis using r d by simp
    next
      case False
      then show ?thesis using r 1(2) by simp
    qed
  qed
qed

lemma compress_eq: "i \<le> length raw \<Longrightarrow> compress raw i result = result @ rle (drop i raw)"
proof (induction raw i result rule: compress.induct)
  case (1 raw i result)
  show ?case
  proof (cases "i < length raw")
    case False
    then show ?thesis using 1(2) by (subst compress.simps) simp
  next
    case True
    define x where "x = raw ! i"
    define xs where "xs = drop (i + 1) raw"
    define n where "n = length (takeWhile (\<lambda>y. y = x) xs)"
    define count where "count = run_length raw i 1"
    define result1 where "result1 = result @ [raw ! i]"
    define result2 where
      "result2 = (if count > 1 then result1 @ [py_str (int count) @ ''r''] else result1)"
    have d: "drop i raw = x # xs"
      using True by (simp add: x_def xs_def Cons_nth_drop_Suc)
    have c: "count = 1 + n"
      unfolding count_def n_def x_def xs_def using run_length_eq[of i 1 raw] True by simp
    have nle: "n \<le> length xs" unfolding n_def by (rule length_takeWhile_le)
    have le: "i + count \<le> length raw"
      using c nle True by (simp add: xs_def)
    have "dropWhile (\<lambda>y. y = x) xs = drop n xs"
      unfolding n_def by (rule dropWhile_eq_drop)
    also have "\<dots> = drop (i + count) raw"
      by (simp add: xs_def c add.commute)
    finally have dw: "dropWhile (\<lambda>y. y = x) xs = drop (i + count) raw" .
    have "compress raw i result = compress raw (i + count) result2"
      using True
      by (subst compress.simps) (simp add: Let_def count_def result1_def result2_def)
    also have "\<dots> = result2 @ rle (drop (i + count) raw)"
      by (rule 1(1)[OF True count_def result1_def result2_def le])
    also have "\<dots> = result @ rle (x # xs)"
      using c dw by (auto simp: result2_def result1_def x_def n_def)
    finally show ?thesis using d by simp
  qed
qed

lemma compress_rle: "compress raw 0 [] = rle raw"
  using compress_eq[of 0 raw "[]"] by simp

definition is_repeat :: "string \<Rightarrow> bool" where
  "is_repeat item = (item \<noteq> [] \<and> last item = CHR ''r'')"

definition is_plain :: "string \<Rightarrow> bool" where
  "is_plain item = (item \<noteq> [] \<and> (last item = CHR ''b'' \<or> last item = CHR ''n''))"

lemma plain_not_repeat: "is_plain item \<Longrightarrow> \<not> is_repeat item"
  by (auto simp: is_plain_def is_repeat_def)

lemma repeat_item: "is_repeat (s @ ''r'')"
  by (simp add: is_repeat_def)

text \<open>Every item differs from the one before it; a repeat item has a plain item before it.\<close>

fun rle_ok :: "string option \<Rightarrow> string list \<Rightarrow> bool" where
  "rle_ok prev [] = True"
| "rle_ok prev (y # zs) =
     ((case prev of
         None \<Rightarrow> is_plain y
       | Some p \<Rightarrow> p \<noteq> y \<and> (is_plain y \<or> (is_plain p \<and> (\<exists>k\<ge>2. y = py_str k @ ''r'')))) \<and>
      rle_ok (Some y) zs)"

lemma encode_step_plain:
  assumes "\<forall>x \<in> set (fst st). is_plain x"
  shows "\<forall>x \<in> set (fst (encode_step enc lang st t)). is_plain x"
  using assms by (auto simp: encode_step_def Let_def is_plain_def split: option.splits)

lemma phase1_plain_gen:
  "\<forall>x \<in> set (fst st). is_plain x \<Longrightarrow>
   \<forall>x \<in> set (fst (foldl (encode_step enc lang) st ts)). is_plain x"
proof (induction ts arbitrary: st)
  case Nil
  then show ?case by simp
next
  case (Cons t ts)
  from encode_step_plain[OF Cons.prems] show ?case
    using Cons.IH[of "encode_step enc lang st t"] by simp
qed

lemma phase1_plain: "\<forall>x \<in> set (fst (encode_phase1 enc lang ts)). is_plain x"
  unfolding encode_phase1_def by (rule phase1_plain_gen) simp

lemma rle_ok_rle:
  assumes "\<forall>x \<in> set raw. is_plain x"
      and "case prev of None \<Rightarrow> True | Some p \<Rightarrow> raw \<noteq> [] \<longrightarrow> p \<noteq> hd raw"
  shows "rle_ok prev (rle raw)"
  using assms
proof (induction raw arbitrary: prev rule: rle.induct)
  case 1
  then show ?case by simp
next
  case (2 x xs)
  let ?P = "\<lambda>y. y = x"
  let ?rest = "dropWhile ?P xs"
  let ?n = "length (takeWhile ?P xs)"
  have px: "is_plain x" using 2(2) by simp
  have prest: "\<forall>y \<in> set ?rest. is_plain y"
    using 2(2) set_dropWhileD[of _ ?P xs] by auto
  have hdrest: "?rest \<noteq> [] \<longrightarrow> x \<noteq> hd ?rest"
  proof
    assume "?rest \<noteq> []"
    from hd_dropWhile[OF this] show "x \<noteq> hd ?rest" by auto
  qed
  have first: "case prev of None \<Rightarrow> is_plain x | Some p \<Rightarrow> p \<noteq> x \<and> is_plain x"
    using 2(3) px by (simp split: option.splits)
  show ?case
  proof (cases "takeWhile ?P xs = []")
    case True
    have "rle_ok (Some x) (rle ?rest)"
      by (rule 2(1)[OF prest]) (simp only: option.case, rule hdrest)
    then show ?thesis using True first by (simp split: option.splits)
  next
    case False
    let ?k = "py_str (int (?n + 1)) @ ''r''"
    have kx: "x \<noteq> ?k" using px plain_not_repeat repeat_item by metis
    have "\<And>y. y \<in> set ?rest \<Longrightarrow> ?k \<noteq> y" using prest plain_not_repeat repeat_item by metis
    then have k2: "?rest \<noteq> [] \<longrightarrow> ?k \<noteq> hd ?rest" by simp
    have "rle_ok (Some ?k) (rle ?rest)"
      by (rule 2(1)[OF prest]) (simp only: option.case, rule k2)
    moreover have "\<exists>k\<ge>2. ?k = py_str k @ ''r''"
      using False by (intro exI[of _ "int (?n + 1)"]) (simp add: Suc_le_eq)
    ultimately show ?thesis using False first kx px by (simp split: option.splits)
  qed
qed

lemma rle_ok_adjacent:
  "rle_ok prev (us @ x # y # vs) \<Longrightarrow> x \<noteq> y"
  by (induction us arbitrary: prev) auto

lemma rle_ok_repeat:
  "rle_ok prev (us @ y # vs) \<Longrightarrow> is_repeat y \<Longrightarrow>
   (\<exists>k\<ge>2. y = py_str k @ ''r'') \<and>
   (case (if us = [] then prev else Some (last us)) of None \<Rightarrow> False | Some p \<Rightarrow> is_plain p)"
proof (induction us arbitrary: prev)
  case Nil
  then show ?case using plain_not_repeat[of y] by (auto split: option.splits)
next
  case (Cons u us)
  from Cons.prems have "rle_ok (Some u) (us @ y # vs)" by simp
  from Cons.IH[OF this Cons.prems(2)] show ?case by (auto split: if_splits)
qed

lemma findall_runs_sep:
  "\<not> A s \<Longrightarrow> \<not> B s \<Longrightarrow> \<not> C s \<Longrightarrow>
   findall_runs A B C (xs @ s # ys) = findall_runs A B C xs @ findall_runs A B C ys"
proof (induction A B C xs rule: findall_runs.induct)
  case (1 A B C)
  then show ?case by simp
next
  case (2 A B C ch rest)
  have tw: "takeWhile P (rest @ s # ys) = takeWhile P rest" if "\<not> P s" for P
    using that by (induction rest) simp_all
  have dw: "dropWhile P (rest @ s # ys) = dropWhile P rest @ s # ys" if "\<not> P s" for P
    using that by (induction rest) simp_all
  show ?case
    using 2 by (simp add: tw dw)
qed

lemma tokens_chars:
  "t \<in> set (findall_runs A B C s) \<Longrightarrow> \<forall>c \<in> set t. A c \<or> B c \<or> C c"
proof (induction A B C s rule: findall_runs.induct)
  case (1 A B C)
  then show ?case by simp
next
  case (2 A B C ch rest)
  then show ?case
    by (auto split: if_splits dest: set_takeWhileD)
qed

lemma lower_space: "lower_char CHR '' '' = CHR '' ''"
  by (simp add: lower_char_def)

lemma space_no_class:
  "\<not> is_word_char CHR '' ''" "\<not> isdigit CHR '' ''" "\<not> is_punct CHR '' ''"
  by (simp_all add: is_word_char_def is_letter_def isdigit_def is_punct_def)

lemma runs_join:
  assumes "\<not> A CHR '' ''" "\<not> B CHR '' ''" "\<not> C CHR '' ''"
  shows "findall_runs A B C (join '' '' xs) = concat (map (findall_runs A B C) xs)"
proof (induction xs)
  case Nil
  then show ?case by simp
next
  case (Cons x xs)
  show ?case
  proof (cases xs)
    case Nil
    then show ?thesis by simp
  next
    case (Cons y ys)
    have "join '' '' (x # xs) = x @ CHR '' '' # join '' '' xs" using Cons by simp
    then show ?thesis
      using Cons.IH
      by (simp only: findall_runs_sep[where A = A and B = B and C = C and s = "CHR '' ''", OF assms]
          list.map concat.simps)
  qed
qed

lemma map_lower_join: "map lower_char (join '' '' xs) = join '' '' (map (map lower_char) xs)"
  by (induction "'' ''" xs rule: join.induct) (simp_all add: lower_space)

lemma filter_join:
  "filter (\<lambda>ch. ch \<noteq> CHR '' '') (join '' '' xs) = concat (map (filter (\<lambda>ch. ch \<noteq> CHR '' '')) xs)"
  by (induction "'' ''" xs rule: join.induct) simp_all

lemma tokenize_join:
  "tokenize (join '' '' xs) lang = concat (map (\<lambda>x. tokenize x lang) xs)"
proof -
  consider (zh) "lang = ''zh''" | (ar) "lang \<noteq> ''zh''" "lang = ''ar''"
    | (latin) "lang \<noteq> ''zh''" "lang \<noteq> ''ar''" by blast
  then show ?thesis
  proof cases
    case zh
    then show ?thesis by (simp add: tokenize_def filter_join map_concat comp_def)
  next
    case ar
    then show ?thesis by (simp add: tokenize_def runs_join space_no_class)
  next
    case latin
    then show ?thesis
      by (simp add: tokenize_def map_lower_join runs_join space_no_class comp_def)
  qed
qed

lemma concat_replicate_single: "concat (replicate k [x]) = replicate k x"
  by (induction k) simp_all

lemma tokenize_repeat:
  "tokenize X lang = [X] \<Longrightarrow> tokenize (join '' '' (replicate k X)) lang = replicate k X"
  by (simp only: tokenize_join map_replicate concat_replicate_single)

lemma phase1_replicate:
  assumes "\<And>st. encode_step enc lang st X = (fst st @ [it], snd st)"
  shows "foldl (encode_step enc lang) (raw, nf) (replicate k X) = (raw @ replicate k it, nf)"
proof (induction k arbitrary: raw)
  case 0
  then show ?case by simp
next
  case (Suc k)
  show ?case using Suc[of "raw @ [it]"] by (simp add: assms replicate_app_Cons_same)
qed

lemma rle_replicate: "2 \<le> k \<Longrightarrow> rle (replicate k it) = [it, py_str (int k) @ ''r'']"
proof -
  assume k: "2 \<le> k"
  then obtain m where m: "k = Suc (Suc m)" by (metis Suc_le_D numeral_2_eq_2 Suc_le_mono)
  have tw: "takeWhile (\<lambda>y. y = it) (replicate (Suc m) it) = replicate (Suc m) it"
    by (rule takeWhile_eq_all_conv[THEN iffD2]) simp
  have dw: "dropWhile (\<lambda>y. y = it) (replicate (Suc m) it) = []"
    by (simp add: dropWhile_eq_Nil_conv)
  have "rle (replicate k it) = rle (it # replicate (Suc m) it)" by (simp add: m)
  also have "\<dots> = [it, py_str (int (Suc (Suc m))) @ ''r'']"
    by (subst rle.simps) (simp only: tw dw, simp)
  finally show ?thesis by (simp add: m)
qed

definition no_space :: "string \<Rightarrow> bool" where
  "no_space s = (\<forall>c \<in> set s. \<not> isspace c)"

lemma split_from_no_space:
  "no_space s \<Longrightarrow> split_from cur s = (if cur @ s = [] then [] else [cur @ s])"
  by (induction s arbitrary: cur) (simp_all add: no_space_def)

lemma split_from_sep:
  "no_space a \<Longrightarrow> isspace c \<Longrightarrow> cur @ a \<noteq> [] \<Longrightarrow>
   split_from cur (a @ c # rest) = (cur @ a) # split_from [] rest"
  by (induction a arbitrary: cur) (auto simp: no_space_def)

lemma split_single: "no_space a \<Longrightarrow> a \<noteq> [] \<Longrightarrow> split a = [a]"
  by (simp add: split_def split_from_no_space)

lemma split_pair:
  "no_space a \<Longrightarrow> a \<noteq> [] \<Longrightarrow> no_space b \<Longrightarrow> b \<noteq> [] \<Longrightarrow> split (a @ '' '' @ b) = [a, b]"
  using split_from_sep[of a "CHR '' ''" "[]" b]
  by (simp add: split_def split_from_no_space isspace_def)

lemma digit_not_space: "isdigit c \<Longrightarrow> \<not> isspace c"
  by (auto simp: isdigit_def isspace_def)

lemma digits_no_space: "list_all isdigit s \<Longrightarrow> no_space s"
  by (auto simp: no_space_def list_all_iff digit_not_space)

lemma digits_of_abs: "0 \<le> n \<Longrightarrow> no_space (digits_of n) \<and> filter is_tag (digits_of n) = []"
  using digits_of_isdigit[of n] by (simp add: digits_no_space filter_tag_digits)

lemma py_str_no_space: "no_space (py_str j)"
  using digits_of_abs[of j] digits_of_abs[of "- j"]
  by (auto simp: py_str_def no_space_def isspace_def)

lemma py_str_not_empty: "py_str j \<noteq> []"
  using digits_of_isdigit[of j] digits_of_isdigit[of "- j"] by (simp add: py_str_def)

lemma py_str_no_tag: "filter is_tag (py_str j) = []"
  using digits_of_abs[of j] digits_of_abs[of "- j"]
  by (auto simp: py_str_def is_tag_def)

lemma py_str_digits: "filter isdigit (py_str j) \<noteq> [] \<and> list_all isdigit (filter isdigit (py_str j))"
proof -
  have "filter isdigit (py_str j) = digits_of \<bar>j\<bar>"
    using digits_of_isdigit[of j] digits_of_isdigit[of "- j"]
    by (auto simp: py_str_def filter_isdigit_id isdigit_def)
  then show ?thesis using digits_of_isdigit[of "\<bar>j\<bar>"] by simp
qed

lemma list_all_filter_same: "list_all P (filter P s)"
  by (induction s) simp_all

lemma decode_step_word:
  assumes "fst (parse_item it) \<noteq> Some CHR ''r''" "fst (parse_item it) \<noteq> Some CHR ''s''"
      and "snd (parse_item it) \<noteq> []"
  shows "\<exists>w. decode_step dec words it = Inr (words @ [w])"
proof -
  have "list_all isdigit (snd (parse_item it))"
    by (simp add: parse_item_eq list_all_filter_same)
  with assms(3) have "py_int (snd (parse_item it)) = Inr (int_digits (snd (parse_item it)))"
    by (rule py_int_digits)
  then show ?thesis
    using assms by (auto simp: decode_step_def Let_def split: option.splits)
qed

lemma decode_step_repeat:
  "decode_step dec (ws @ [w]) (py_str (int k) @ ''r'') = Inr (ws @ [w] @ replicate (k - 1) w)"
proof -
  have d: "list_all isdigit (py_str (int k))" "py_str (int k) \<noteq> []"
    using py_str_nonneg_digits[of "int k"] by simp_all
  have p: "parse_item (py_str (int k) @ ''r'') = (Some CHR ''r'', py_str (int k))"
    using d by (simp add: parse_item_eq filter_isdigit_id filter_tag_digits is_tag_def isdigit_def)
  have i: "py_int (py_str (int k)) = Inr (int k)" by (rule py_int_py_str) simp
  have n: "nat (int k - 1) = k - 1" by simp
  show ?thesis
    using d(2) by (simp add: decode_step_def p i n Let_def)
qed

lemma number_token_digits:
  assumes nt: "is_number_token X" and tk: "tokenize X lang = [X]"
  shows "list_all isdigit X \<and> X \<noteq> []"
proof (cases "X \<noteq> [] \<and> last X = CHR 0x0A")
  case False
  then show ?thesis using nt by (auto simp: is_number_token_def Let_def)
next
  case True
  then have nl: "CHR 0x0A \<in> set X" using last_in_set[of X] by auto
  have False
  proof (cases "lang = ''zh''")
    case True
    with tk have "map (\<lambda>ch. [ch]) (filter (\<lambda>ch. ch \<noteq> CHR '' '') X) = [X]"
      by (simp add: tokenize_def)
    then obtain c where "X = [c]" by (cases "filter (\<lambda>ch. ch \<noteq> CHR '' '') X") auto
    with \<open>X \<noteq> [] \<and> last X = CHR 0x0A\<close> nt show False
      by (simp add: is_number_token_def)
  next
    case False
    have cls: "\<not> (is_word_char CHR 0x0A \<or> isdigit CHR 0x0A \<or> is_punct CHR 0x0A)"
      by (simp add: is_word_char_def is_letter_def isdigit_def is_punct_def)
    have lw: "lower_char c = CHR 0x0A \<Longrightarrow> is_word_char (lower_char c) \<or> isdigit (lower_char c) \<or> is_punct (lower_char c) \<Longrightarrow> False" for c
      using cls by simp
    show False
    proof (cases "lang = ''ar''")
      case True
      with tk \<open>lang \<noteq> ''zh''\<close> have "X \<in> set (findall_runs isdigit is_word_char is_punct X)"
        by (simp add: tokenize_def)
      from tokens_chars[OF this] nl cls show False by blast
    next
      case False
      with tk \<open>lang \<noteq> ''zh''\<close>
      have "X \<in> set (findall_runs is_word_char isdigit is_punct (map lower_char X))"
        by (simp add: tokenize_def)
      from tokens_chars[OF this] nl cls show False by blast
    qed
  qed
  then show ?thesis ..
qed

lemma encode_item_shape:
  assumes "enc X = Some i" "tokenize X lang = [X]"
  obtains it where "\<And>st. encode_step enc lang st X = (fst st @ [it], snd st)"
    and "(\<exists>j. it = py_str j @ ''b'') \<or> (list_all isdigit X \<and> X \<noteq> [] \<and> it = X @ ''n'')"
proof (cases "is_number_token X")
  case True
  from number_token_digits[OF True assms(2)] have d: "list_all isdigit X \<and> X \<noteq> []" .
  have "\<And>st. encode_step enc lang st X = (fst st @ [X @ ''n''], snd st)"
    using True by (simp add: encode_step_def)
  with d that show ?thesis by blast
next
  case False
  show ?thesis
  proof (cases "enc (if lang \<noteq> ''zh'' then map lower_char X else X)")
    case None
    have "\<And>st. encode_step enc lang st X = (fst st @ [py_str i @ ''b''], snd st)"
      using False None assms(1) by (simp add: encode_step_def Let_def)
    with that show ?thesis by blast
  next
    case (Some j)
    have "\<And>st. encode_step enc lang st X = (fst st @ [py_str j @ ''b''], snd st)"
      using False Some by (simp add: encode_step_def Let_def)
    with that show ?thesis by blast
  qed
qed

lemma item_shape_ok:
  assumes "(\<exists>j. it = py_str j @ ''b'') \<or> (list_all isdigit X \<and> X \<noteq> [] \<and> it = X @ ''n'')"
  shows "no_space it \<and> it \<noteq> [] \<and> fst (parse_item it) \<noteq> Some CHR ''r'' \<and>
         fst (parse_item it) \<noteq> Some CHR ''s'' \<and> snd (parse_item it) \<noteq> []"
  using assms
proof (elim disjE exE conjE)
  fix j assume it: "it = py_str j @ ''b''"
  have ns: "no_space it"
    using py_str_no_space[of j] by (simp add: it no_space_def isspace_def)
  have p: "parse_item it = (Some CHR ''b'', filter isdigit (py_str j))"
    by (simp add: it parse_item_eq py_str_no_tag is_tag_def isdigit_def)
  show ?thesis using ns p py_str_digits[of j] by (simp add: it)
next
  assume d: "list_all isdigit X" "X \<noteq> []" and it: "it = X @ ''n''"
  have ns: "no_space it"
    using digits_no_space[OF d(1)] by (simp add: it no_space_def isspace_def)
  have p: "parse_item it = (Some CHR ''n'', X)"
    using d by (simp add: it parse_item_eq filter_isdigit_id filter_tag_digits is_tag_def isdigit_def)
  show ?thesis using ns p d by (simp add: it)
qed

lemma repeat_item_ok: "no_space (py_str (int k) @ ''r'') \<and> py_str (int k) @ ''r'' \<noteq> []"
  using py_str_no_space[of "int k"] by (simp add: no_space_def isspace_def)

section \<open>Claims about the encoder and the decoder\<close>




text \<open>
  C3 (Scenario A). With any tables in which the Spanish lexicon maps \<open>hola\<close> to 7 and the
  reverse lexicon maps 7 to \<open>hola\<close>, \<open>encode\<close> of the text \<open>hola hola hola\<close> is the wire
  sequence of the two items \<open>7b\<close> and \<open>3r\<close>, and \<open>decode\<close> of the wire string \<open>7b 3r\<close> returns
  the text \<open>Hola hola hola\<close> without raising.
\<close>

theorem scenario_A:
  assumes "dicts_encode ''es'' = Some enc" "enc ''hola'' = Some 7"
      and "dicts_decode ''es'' = Some dec" "dec 7 = Some ''hola''"
  shows "encode dicts_encode ''hola hola hola'' ''es'' = [''7b'', ''3r''] \<and>
         decode dicts_decode ''7b 3r'' ''es'' = Inr ''Hola hola hola''"
proof -
  have t: "tokenize ''hola hola hola'' ''es'' = [''hola'', ''hola'', ''hola'']"
    by (simp add: tokenize_def lower_char_def is_word_char_def is_letter_def isdigit_def is_punct_def)
  have nn: "\<not> is_number_token ''hola''"
    by (simp add: is_number_token_def isdigit_def)
  have lw: "map lower_char ''hola'' = ''hola''" by (simp add: lower_char_def)
  have st: "\<And>st. encode_step enc ''es'' st ''hola'' = (fst st @ [''7b''], snd st)"
    using assms(2) nn by (simp add: encode_step_def lower_char_def py_str_small)
  have raw: "fst (encode_phase1 enc ''es'' [''hola'', ''hola'', ''hola'']) = [''7b'', ''7b'', ''7b'']"
    by (simp add: encode_phase1_def st)
  have r: "rle [''7b'', ''7b'', ''7b''] = [''7b'', ''3r'']"
    by (simp add: py_str_small)
  have e: "encode dicts_encode ''hola hola hola'' ''es'' = [''7b'', ''3r'']"
    using assms(1) by (simp add: encode_def t raw compress_rle py_str_small Let_def)
  have sp: "split ''7b 3r'' = [''7b'', ''3r'']"
    by (simp add: split_def isspace_def)
  have p: "parse_item ''7b'' = (Some CHR ''b'', ''7'')" "parse_item ''3r'' = (Some CHR ''r'', ''3'')"
    by (simp_all add: parse_item_eq is_tag_def isdigit_def)
  have i: "py_int ''7'' = Inr 7" "py_int ''3'' = Inr 3"
    by (simp_all add: py_int_def isdigit_def digit_val_def)
  have w: "decode_tokens dec [] [''7b'', ''3r''] = Inr [''hola'', ''hola'', ''hola'']"
    using assms(4) by (simp add: decode_step_def p i Let_def eval_nat_numeral)
  have rc: "reconstruct [''hola'', ''hola'', ''hola''] = ''Hola hola hola''"
    by (simp add: reconstruct_def enumerate_eq_zip part_step_def PUNCT_ATTACH_RIGHT_def
        upper_char_def Let_def upt_rec)
  have d: "decode dicts_decode ''7b 3r'' ''es'' = Inr ''Hola hola hola''"
    using assms(3) by (simp add: decode_def sp w rc Let_def del: decode_tokens.simps)
  show ?thesis using e d by simp
qed

text \<open>Scenario A with the one-entry lexicon.\<close>

theorem scenario_A_witness:
  "encode [''es'' \<mapsto> [''hola'' \<mapsto> 7]] ''hola hola hola'' ''es'' = [''7b'', ''3r''] \<and>
   decode [''es'' \<mapsto> [7 \<mapsto> ''hola'']] ''7b 3r'' ''es'' = Inr ''Hola hola hola''"
  using scenario_A[of "[''es'' \<mapsto> [''hola'' \<mapsto> 7]]" "[''hola'' \<mapsto> 7]"
      "[''es'' \<mapsto> [7 \<mapsto> ''hola'']]" "[7 \<mapsto> ''hola'']"]
  by simp



text \<open>
  C5 (tag letters, upper case). The scan of the decoder accepts the lower-case letters only:
  the item \<open>5N\<close> has no tag for it and is looked up as the ID 5, while \<open>5n\<close> is the literal
  5. The renderer \<open>create_strip\<close> lowers the case of the tag, so \<open>5N\<close> and \<open>5n\<close> get the same
  marker there.
\<close>

theorem tag_letters_case_sensitive:
  "parse_item ''5N'' = (None, ''5'') \<and>
   parse_item ''5n'' = (Some CHR ''n'', ''5'') \<and>
   decode_step dec [] ''5N'' = Inr [case dec 5 of None \<Rightarrow> ''[?5]'' | Some w \<Rightarrow> w] \<and>
   decode_step dec [] ''5n'' = Inr [''5''] \<and>
   token_suffix ''5N'' = Some CHR ''n'' \<and>
   token_suffix ''5n'' = Some CHR ''n''"
proof -
  have a: "parse_item ''5N'' = (None, ''5'')" "parse_item ''5n'' = (Some CHR ''n'', ''5'')"
    by (simp_all add: parse_item_eq is_tag_def isdigit_def)
  have b: "py_int ''5'' = Inr 5"
    by (simp add: py_int_def isdigit_def digit_val_def)
  have c: "decode_step dec [] ''5N'' = Inr [case dec 5 of None \<Rightarrow> ''[?5]'' | Some w \<Rightarrow> w]"
    by (simp add: decode_step_def a b Let_def py_str_small split: option.splits)
  have d: "decode_step dec [] ''5n'' = Inr [''5'']"
    by (simp add: decode_step_def a b Let_def py_str_small)
  have e: "token_suffix ''5N'' = Some CHR ''n''" "token_suffix ''5n'' = Some CHR ''n''"
    by (simp_all add: token_suffix_def lower_char_def)
  show ?thesis using a c d e by simp
qed

text \<open>
  C8 (run-length invariant). In the wire sequence that \<open>encode\<close> returns, for every text,
  language and lexicon table, no two neighbouring items are equal, and every item that ends
  in \<open>r\<close> is \<open>kr\<close> for a count \<open>k \<ge> 2\<close> and stands directly after an item that ends in \<open>b\<close> or
  \<open>n\<close>, the Dictionary or Literal item of its run.
\<close>

theorem rle_invariant:
  "(\<forall>us x y vs. encode dicts_encode text lang = us @ x # y # vs \<longrightarrow> x \<noteq> y) \<and>
   (\<forall>us y vs. encode dicts_encode text lang = us @ y # vs \<and> y \<noteq> [] \<and> last y = CHR ''r'' \<longrightarrow>
      (\<exists>k\<ge>2. y = py_str k @ ''r'') \<and>
      (\<exists>ws x. us = ws @ [x] \<and> x \<noteq> [] \<and> (last x = CHR ''b'' \<or> last x = CHR ''n'')))"
proof (cases "dicts_encode lang")
  case None
  then show ?thesis by (simp add: encode_def)
next
  case (Some enc)
  define raw where "raw = fst (encode_phase1 enc lang (tokenize text lang))"
  have e: "encode dicts_encode text lang = rle raw"
    using Some by (simp add: encode_def raw_def Let_def compress_rle)
  have ok: "rle_ok None (rle raw)"
    by (rule rle_ok_rle) (simp_all add: raw_def phase1_plain)
  have a: "x \<noteq> y" if "rle raw = us @ x # y # vs" for us x y vs
    using ok rle_ok_adjacent[of None us x y vs] that by simp
  have b: "(\<exists>k\<ge>2. y = py_str k @ ''r'') \<and>
           (\<exists>ws x. us = ws @ [x] \<and> x \<noteq> [] \<and> (last x = CHR ''b'' \<or> last x = CHR ''n''))"
    if "rle raw = us @ y # vs" "y \<noteq> []" "last y = CHR ''r''" for us y vs
  proof -
    have r: "is_repeat y" using that by (simp add: is_repeat_def)
    from rle_ok_repeat[of None us y vs] ok that(1) r
    have k: "\<exists>k\<ge>2. y = py_str k @ ''r''"
      and p: "case (if us = [] then None else Some (last us)) of None \<Rightarrow> False | Some p \<Rightarrow> is_plain p"
      by simp_all
    from p have ne: "us \<noteq> []" and pl: "is_plain (last us)" by (auto split: if_splits)
    from ne have "us = butlast us @ [last us]" by simp
    with pl k show ?thesis unfolding is_plain_def by blast
  qed
  show ?thesis unfolding e using a b by blast
qed

text \<open>The invariant on the two items of Scenario A.\<close>

theorem rle_invariant_witness:
  "encode [''es'' \<mapsto> [''hola'' \<mapsto> 7]] ''hola hola hola'' ''es'' = [''7b'', ''3r''] \<and>
   ''7b'' \<noteq> ''3r'' \<and> (\<exists>k\<ge>2. ''3r'' = py_str k @ ''r'')"
proof -
  have e: "encode [''es'' \<mapsto> [''hola'' \<mapsto> 7]] ''hola hola hola'' ''es'' = [] @ ''7b'' # ''3r'' # []"
    by (simp add: encode_def tokenize_def lower_char_def is_word_char_def is_letter_def
        isdigit_def is_punct_def encode_phase1_def encode_step_def is_number_token_def
        py_str_small compress_rle Let_def)
  have e2: "encode [''es'' \<mapsto> [''hola'' \<mapsto> 7]] ''hola hola hola'' ''es'' = [''7b''] @ ''3r'' # []"
    using e by simp
  note A = conjunct1[OF rle_invariant[of "[''es'' \<mapsto> [''hola'' \<mapsto> 7]]" "''hola hola hola''" "''es''"],
      rule_format]
  note B = conjunct2[OF rle_invariant[of "[''es'' \<mapsto> [''hola'' \<mapsto> 7]]" "''hola hola hola''" "''es''"],
      rule_format]
  have a: "''7b'' \<noteq> ''3r''" by (rule A[OF e])
  have "''3r'' \<noteq> [] \<and> last ''3r'' = CHR ''r''" by simp
  with e2 have b: "\<exists>k\<ge>2. ''3r'' = py_str k @ ''r''" using B[of "[''7b'']" "''3r''" "[]"] by blast
  from e a b show ?thesis by simp
qed

text \<open>
  C10 (several tag letters in one item). The scan of a wire item returns the digit characters
  of the item in their order and the last of its letters \<open>b\<close>, \<open>n\<close>, \<open>s\<close>, \<open>r\<close> (None when it has
  none); the item \<open>1b2r\<close> is the value 12 with tag \<open>r\<close>, which after one word repeats it up
  to twelve copies.
\<close>

theorem multi_tag_item:
  "parse_item token =
     ((if filter (\<lambda>ch. ch \<in> set ''bnsr'') token = [] then None
       else Some (last (filter (\<lambda>ch. ch \<in> set ''bnsr'') token))),
      filter isdigit token) \<and>
   parse_item ''1b2r'' = (Some CHR ''r'', ''12'') \<and>
   py_int ''12'' = Inr 12 \<and>
   decode_step dec [w] ''1b2r'' = Inr (replicate 12 w)"
proof -
  have a: "parse_item ''1b2r'' = (Some CHR ''r'', ''12'')"
    by (simp add: parse_item_eq is_tag_def isdigit_def)
  have b: "py_int ''12'' = Inr 12"
    by (simp add: py_int_def isdigit_def digit_val_def)
  have c: "decode_step dec [w] ''1b2r'' = Inr (replicate 12 w)"
    by (simp add: decode_step_def a b Let_def eval_nat_numeral)
  show ?thesis
    using parse_item_eq[of token] a b c unfolding is_tag_def by simp
qed

end
